theory Spec2Isabelle
  imports Main "HOL-Library.Word"
begin

section \<open>JavaScript strings\<close>

text \<open>
  A JavaScript string is a sequence of 16-bit UTF-16 code units; \<open>length\<close>, indexing,
  \<open>startsWith\<close>, \<open>split\<close>, \<open>trim\<close> and (non-unicode) regular expressions all work on
  code units. \<open>js\<close> reads an ASCII literal of the source as such a sequence.
\<close>

type_synonym codeunit = "16 word"
type_synonym jsstring = "codeunit list"

definition js :: "string \<Rightarrow> jsstring" where
  "js s = map of_char s"

definition star :: codeunit where
  "star = 0x2A"

definition dash :: codeunit where
  "dash = 0x2D"

definition newline :: codeunit where
  "newline = 0x0A"

text \<open>
  The class \<open>\s\<close> of a regular expression, which is also what \<open>trim\<close> strips: the
  WhiteSpace and LineTerminator code units of ECMAScript.
\<close>

definition isSpace :: "codeunit \<Rightarrow> bool" where
  "isSpace c \<longleftrightarrow>
     c = 0x09 \<or> c = 0x0A \<or> c = 0x0B \<or> c = 0x0C \<or> c = 0x0D \<or> c = 0x20 \<or> c = 0xA0 \<or>
     c = 0x1680 \<or> (0x2000 \<le> c \<and> c \<le> 0x200A) \<or> c = 0x2028 \<or> c = 0x2029 \<or>
     c = 0x202F \<or> c = 0x205F \<or> c = 0x3000 \<or> c = 0xFEFF"

text \<open>The code units that \<open>.\<close> does not match (no \<open>s\<close> flag).\<close>

definition isLineTerminator :: "codeunit \<Rightarrow> bool" where
  "isLineTerminator c \<longleftrightarrow> c = 0x0A \<or> c = 0x0D \<or> c = 0x2028 \<or> c = 0x2029"

text \<open>The class \<open>\d\<close>.\<close>

definition isDigit :: "codeunit \<Rightarrow> bool" where
  "isDigit c \<longleftrightarrow> 0x30 \<le> c \<and> c \<le> 0x39"

definition isUpper :: "codeunit \<Rightarrow> bool" where
  "isUpper c \<longleftrightarrow> 0x41 \<le> c \<and> c \<le> 0x5A"

definition isLower :: "codeunit \<Rightarrow> bool" where
  "isLower c \<longleftrightarrow> 0x61 \<le> c \<and> c \<le> 0x7A"

text \<open>The class \<open>\w\<close>: \<open>[A-Za-z0-9_]\<close>.\<close>

definition isWordChar :: "codeunit \<Rightarrow> bool" where
  "isWordChar c \<longleftrightarrow> isUpper c \<or> isLower c \<or> isDigit c \<or> c = 0x5F"

definition startsWith :: "jsstring \<Rightarrow> jsstring \<Rightarrow> bool" where
  "startsWith s p \<longleftrightarrow> take (length p) s = p"

definition trim :: "jsstring \<Rightarrow> jsstring" where
  "trim s = rev (dropWhile isSpace (rev (dropWhile isSpace s)))"

text \<open>\<open>s.charAt(k)\<close>: the empty string when \<open>k\<close> is out of range.\<close>

definition charAt :: "jsstring \<Rightarrow> nat \<Rightarrow> jsstring" where
  "charAt s k = (if k < length s then [s ! k] else [])"

text \<open>
  \<open>s.replace(pat, rep)\<close> with a string pattern: only the first occurrence is replaced.
\<close>

fun replaceFirst :: "jsstring \<Rightarrow> jsstring \<Rightarrow> jsstring \<Rightarrow> jsstring" where
  "replaceFirst pat rep [] = (if pat = [] then rep else [])"
| "replaceFirst pat rep (c # cs) =
     (if startsWith (c # cs) pat then rep @ drop (length pat) (c # cs)
      else c # replaceFirst pat rep cs)"

text \<open>
  \<open>s.split(sep)\<close> with a non-empty string separator: the pieces between the leftmost,
  non-overlapping occurrences of \<open>sep\<close>; always at least one piece.
\<close>

fun split :: "jsstring \<Rightarrow> jsstring \<Rightarrow> jsstring list" where
  "split sep [] = [[]]"
| "split sep (c # cs) =
     (if sep \<noteq> [] \<and> startsWith (c # cs) sep
      then [] # split sep (drop (length sep) (c # cs))
      else (case split sep cs of [] \<Rightarrow> [[c]] | p # ps \<Rightarrow> (c # p) # ps))"

section \<open>The data model\<close>

text \<open>
  \<open>PortableTextSpan\<close> and \<open>PortableTextBlock\<close>. The constant \<open>_type\<close> tags are left out;
  an optional field is an \<open>option\<close>; \<open>_key\<close> is \<open>key\<close>. The mark strings the code
  writes are \<open>'strong'\<close> and \<open>'em'\<close>.
\<close>

datatype mark = strong | em

record span =
  "text" :: jsstring
  marks :: "mark list option"

datatype style = normal | h1 | h2 | h3 | h4 | blockquote

datatype listKind = bullet | number

record block =
  style :: style
  listItem :: "listKind option"
  level :: "nat option"
  children :: "span list"
  key :: jsstring

section \<open>generateKey\<close>

text \<open>
  \<open>Math.random\<close> is the only effect of the converter. The random source is passed
  explicitly: \<open>r k\<close> is the value of \<open>Math.floor(Math.random() * chars.length)\<close> at the
  \<open>k\<close>-th draw still to come; a function that draws returns the source advanced.
\<close>

type_synonym random = "nat \<Rightarrow> nat"

definition chars :: jsstring where
  "chars = js ''abcdefghijklmnopqrstuvwxyzABCDEFGHIJKLMNOPQRSTUVWXYZ0123456789''"

fun generateKeyLoop :: "nat \<Rightarrow> jsstring \<Rightarrow> random \<Rightarrow> jsstring \<times> random" where
  "generateKeyLoop 0 result r = (result, r)"
| "generateKeyLoop (Suc n) result r =
     generateKeyLoop n (result @ charAt chars (r 0)) (\<lambda>k. r (Suc k))"

definition generateKey :: "nat \<Rightarrow> random \<Rightarrow> jsstring \<times> random" where
  "generateKey len r = generateKeyLoop len [] r"

definition zeroRandom :: random where
  "zeroRandom = (\<lambda>k. 0)"

section \<open>processBoldAndEmphasis\<close>

record scanState =
  segments :: "span list"
  currentText :: jsstring
  isBold :: bool
  isItalic :: bool

definition marksOf :: "bool \<Rightarrow> bool \<Rightarrow> mark list" where
  "marksOf b i = (if b then [strong] else []) @ (if i then [em] else [])"

text \<open>
  \<open>if (currentText) { segments.push({text: currentText, marks: [...]}); currentText = ''; }\<close>
\<close>

definition flush :: "scanState \<Rightarrow> scanState" where
  "flush st =
     (if currentText st \<noteq> []
      then st\<lparr>segments := segments st @
                 [\<lparr>text = currentText st, marks = Some (marksOf (isBold st) (isItalic st))\<rparr>],
              currentText := []\<rparr>
      else st)"

text \<open>
  The \<open>for\<close> loop, entered at index \<open>i\<close>; the parameter \<open>text\<close> of the source is \<open>txt\<close>
  here. Every index read is in range: the source guards \<open>text[i+1]\<close> by
  \<open>i < text.length - 1\<close> or \<open>i === text.length - 1\<close>, and \<open>text[i-1]\<close> by \<open>i === 0\<close>.
  A bold marker advances \<open>i\<close> by two (the \<open>i++\<close> of the body and the one of the loop).
\<close>

function scanLoop :: "jsstring \<Rightarrow> nat \<Rightarrow> scanState \<Rightarrow> scanState" where
  "scanLoop txt i st =
     (if i < length txt then
        (if i < length txt - 1 \<and> txt ! i = star \<and> txt ! (i + 1) = star then
           scanLoop txt (i + 2) ((flush st)\<lparr>isBold := \<not> isBold st\<rparr>)
         else if txt ! i = star \<and> (i = 0 \<or> txt ! (i - 1) \<noteq> star)
                 \<and> (i = length txt - 1 \<or> txt ! (i + 1) \<noteq> star) then
           scanLoop txt (i + 1) ((flush st)\<lparr>isItalic := \<not> isItalic st\<rparr>)
         else
           scanLoop txt (i + 1) (st\<lparr>currentText := currentText st @ [txt ! i]\<rparr>))
      else st)"
  by pat_completeness auto
termination
  by (relation "measure (\<lambda>(txt, i, st). length txt - i)") auto

definition initialState :: scanState where
  "initialState = \<lparr>segments = [], currentText = [], isBold = False, isItalic = False\<rparr>"

definition processBoldAndEmphasis :: "jsstring \<Rightarrow> span list" where
  "processBoldAndEmphasis txt =
     (let st = flush (scanLoop txt 0 initialState)
      in if length (segments st) > 0 then segments st
         else [\<lparr>text = [], marks = None\<rparr>])"

section \<open>The preprocessing of markdownToPortableText\<close>

text \<open>
  \<open>(.*?)\*\*\<close>: the shortest run of code units other than line terminators that is
  followed by two asterisks. The result is the run and what follows the asterisks.
\<close>

fun findClose :: "jsstring \<Rightarrow> (jsstring \<times> jsstring) option" where
  "findClose [] = None"
| "findClose (c # cs) =
     (if c = star \<and> startsWith cs [star] then Some ([], tl cs)
      else if isLineTerminator c then None
      else (case findClose cs of
              None \<Rightarrow> None
            | Some (content, rest) \<Rightarrow> Some (c # content, rest)))"

text \<open>
  A match of \<open>/\*\*H([1-6]):(.*?)\*\*/\<close> at the start of the string: the level digit, the
  content and the rest of the string after the match.
\<close>

fun matchBoldHeading :: "jsstring \<Rightarrow> (codeunit \<times> jsstring \<times> jsstring) option" where
  "matchBoldHeading (a # b # h # d # c # cs) =
     (if a = star \<and> b = star \<and> h = 0x48 \<and> 0x31 \<le> d \<and> d \<le> 0x36 \<and> c = 0x3A
      then (case findClose cs of
              None \<Rightarrow> None
            | Some (content, rest) \<Rightarrow> Some (d, content, rest))
      else None)"
| "matchBoldHeading _ = None"

text \<open>
  \<open>.replace(/\*\*H([1-6]):(.*?)\*\*/g, (_, level, content) => `\n\nH${level}:${content}\n\n`)\<close>:
  every match, leftmost first and then on from its end, is replaced.
\<close>

function replaceBoldHeadings :: "jsstring \<Rightarrow> jsstring" where
  "replaceBoldHeadings [] = []"
| "replaceBoldHeadings (c # cs) =
     (case matchBoldHeading (c # cs) of
        Some (lvl, content, rest) \<Rightarrow>
          [newline, newline, 0x48, lvl, 0x3A] @ content @ [newline, newline]
            @ replaceBoldHeadings rest
      | None \<Rightarrow> c # replaceBoldHeadings cs)"
  by pat_completeness auto
termination
proof -
  have close: "length rest < length s" if "findClose s = Some (content, rest)"
    for s content rest
    using that
  proof (induction s arbitrary: content)
    case Nil
    then show ?case by simp
  next
    case (Cons c cs)
    then show ?case
      by (cases cs) (auto simp: startsWith_def split: if_splits option.splits)
  qed
  have shorter: "length rest < length s" if "matchBoldHeading s = Some (d, content, rest)"
    for s d content rest
    using that
    by (induction s rule: matchBoldHeading.induct)
       (auto split: if_splits option.splits dest: close)
  show ?thesis
    by (relation "measure length") (auto dest: shorter)
qed

text \<open>\<open>.replace(/\n{3,}/g, '\n\n')\<close>: a maximal run of three or more newlines becomes two.\<close>

function collapseNewlines :: "jsstring \<Rightarrow> jsstring" where
  "collapseNewlines [] = []"
| "collapseNewlines (c # cs) =
     (if c = newline \<and> startsWith cs [newline, newline]
      then [newline, newline] @ collapseNewlines (dropWhile (\<lambda>x. x = newline) cs)
      else c # collapseNewlines cs)"
  by pat_completeness auto
termination
  by (relation "measure length") (auto simp: less_Suc_eq_le length_dropWhile_le)

section \<open>The paragraph rules of markdownToPortableText\<close>

text \<open>\<open>/^H2:/i\<close>, \<open>/^H3:/i\<close>, \<open>/^H4:/i\<close>: the digit is the parameter.\<close>

definition matchHeading :: "codeunit \<Rightarrow> jsstring \<Rightarrow> bool" where
  "matchHeading d s =
     (case s of
        h # e # c # _ \<Rightarrow> (h = 0x48 \<or> h = 0x68) \<and> e = d \<and> c = 0x3A
      | _ \<Rightarrow> False)"

text \<open>\<open>s.replace(/^H2:/i, '')\<close> and its siblings.\<close>

definition removeHeading :: "codeunit \<Rightarrow> jsstring \<Rightarrow> jsstring" where
  "removeHeading d s = (if matchHeading d s then drop 3 s else s)"

text \<open>
  \<open>s.replace(/^>|^&gt;/g, '')\<close>: both alternatives are anchored at the start of the
  string (no \<open>m\<close> flag), so at most one match is removed.
\<close>

definition removeQuote :: "jsstring \<Rightarrow> jsstring" where
  "removeQuote s =
     (if startsWith s (js ''>'') then drop 1 s
      else if startsWith s (js ''&gt;'') then drop 4 s
      else s)"

text \<open>\<open>/^[\s]*[-*]\s/.test(s)\<close>\<close>

definition testBullet :: "jsstring \<Rightarrow> bool" where
  "testBullet s =
     (case dropWhile isSpace s of
        m # w # _ \<Rightarrow> (m = dash \<or> m = star) \<and> isSpace w
      | _ \<Rightarrow> False)"

text \<open>\<open>s.replace(/^[\s]*[-*]\s+/, '')\<close>\<close>

definition removeBullet :: "jsstring \<Rightarrow> jsstring" where
  "removeBullet s =
     (case dropWhile isSpace s of
        m # w # rest \<Rightarrow>
          if (m = dash \<or> m = star) \<and> isSpace w then dropWhile isSpace rest else s
      | _ \<Rightarrow> s)"

text \<open>\<open>/^[\s]*\d+\.\s/.test(s)\<close>\<close>

definition testNumber :: "jsstring \<Rightarrow> bool" where
  "testNumber s =
     (let t = dropWhile isSpace s
      in takeWhile isDigit t \<noteq> [] \<and>
         (case dropWhile isDigit t of
            p # w # _ \<Rightarrow> p = 0x2E \<and> isSpace w
          | _ \<Rightarrow> False))"

text \<open>\<open>s.replace(/^[\s]*\d+\.\s+/, '')\<close>\<close>

definition removeNumber :: "jsstring \<Rightarrow> jsstring" where
  "removeNumber s =
     (let t = dropWhile isSpace s
      in if takeWhile isDigit t \<noteq> [] then
           (case dropWhile isDigit t of
              p # w # rest \<Rightarrow> if p = 0x2E \<and> isSpace w then dropWhile isSpace rest else s
            | _ \<Rightarrow> s)
         else s)"

text \<open>
  \<open>Array.prototype.map\<close> with a callback that draws from the random source: the
  elements are visited in order and the source is threaded through.
\<close>

fun mapState :: "('a \<Rightarrow> random \<Rightarrow> 'b \<times> random) \<Rightarrow> 'a list \<Rightarrow> random \<Rightarrow> 'b list \<times> random" where
  "mapState f [] r = ([], r)"
| "mapState f (x # xs) r =
     (let (y, r1) = f x r; (ys, r2) = mapState f xs r1 in (y # ys, r2))"

text \<open>
  The callback of \<open>paragraphs.map\<close> returns one block, or an array of blocks for a
  list; \<open>flat()\<close> splices the arrays in.
\<close>

datatype blockOrArray = Single block | Array "block list"

fun flat :: "blockOrArray list \<Rightarrow> block list" where
  "flat [] = []"
| "flat (Single b # xs) = b # flat xs"
| "flat (Array bs # xs) = bs @ flat xs"

definition bulletItem :: "jsstring \<Rightarrow> random \<Rightarrow> block \<times> random" where
  "bulletItem item r =
     (let (k, r1) = generateKey 12 r
      in (\<lparr>style = normal, listItem = Some bullet, level = Some 1,
           children = processBoldAndEmphasis (removeBullet item), key = k\<rparr>, r1))"

definition numberItem :: "jsstring \<Rightarrow> random \<Rightarrow> block \<times> random" where
  "numberItem item r =
     (let (k, r1) = generateKey 12 r
      in (\<lparr>style = normal, listItem = Some number, level = Some 1,
           children = processBoldAndEmphasis (removeNumber item), key = k\<rparr>, r1))"

definition plainBlock :: "style \<Rightarrow> jsstring \<Rightarrow> random \<Rightarrow> blockOrArray \<times> random" where
  "plainBlock sty txt r =
     (let (k, r1) = generateKey 12 r
      in (Single \<lparr>style = sty, listItem = None, level = None,
                  children = processBoldAndEmphasis txt, key = k\<rparr>, r1))"

definition convertParagraph :: "jsstring \<Rightarrow> random \<Rightarrow> blockOrArray \<times> random" where
  "convertParagraph paragraph r =
     (if startsWith paragraph (js ''# '') then
        plainBlock h1 (replaceFirst (js ''# '') [] paragraph) r
      else if startsWith paragraph (js ''## '') \<or> matchHeading 0x32 paragraph then
        (let txt = (if startsWith paragraph (js ''## '')
                    then replaceFirst (js ''## '') [] paragraph
                    else removeHeading 0x32 paragraph)
         in plainBlock h2 (trim txt) r)
      else if startsWith paragraph (js ''### '') \<or> matchHeading 0x33 paragraph then
        (let txt = (if startsWith paragraph (js ''### '')
                    then replaceFirst (js ''### '') [] paragraph
                    else removeHeading 0x33 paragraph)
         in plainBlock h3 (trim txt) r)
      else if startsWith paragraph (js ''#### '') \<or> matchHeading 0x34 paragraph then
        (let txt = (if startsWith paragraph (js ''#### '')
                    then replaceFirst (js ''#### '') [] paragraph
                    else removeHeading 0x34 paragraph)
         in plainBlock h4 (trim txt) r)
      else if startsWith paragraph (js ''> '') \<or> startsWith paragraph (js ''&gt; '') then
        plainBlock blockquote (trim (removeQuote paragraph)) r
      else if testBullet paragraph then
        (let listItems = filter testBullet (split [newline] paragraph);
             (bs, r1) = mapState bulletItem listItems r
         in (Array bs, r1))
      else if testNumber paragraph then
        (let listItems = filter testNumber (split [newline] paragraph);
             (bs, r1) = mapState numberItem listItems r
         in (Array bs, r1))
      else
        plainBlock normal paragraph r)"

definition markdownToPortableText :: "jsstring \<Rightarrow> random \<Rightarrow> block list \<times> random" where
  "markdownToPortableText markdown r =
     (let cleanedMarkdown = collapseNewlines (replaceBoldHeadings markdown);
          paragraphs = split [newline, newline] cleanedMarkdown;
          (blocks, r1) = mapState convertParagraph (filter (\<lambda>p. trim p \<noteq> []) paragraphs) r
      in (flat blocks, r1))"

section \<open>createSlug\<close>

text \<open>\<open>.replace(/[^\w\s-]/g, '')\<close>\<close>

definition removeSpecial :: "jsstring \<Rightarrow> jsstring" where
  "removeSpecial s = filter (\<lambda>c. isWordChar c \<or> isSpace c \<or> c = dash) s"

text \<open>
  \<open>.replace(/\s+/g, '-')\<close> and \<open>.replace(/-+/g, '-')\<close>: every maximal run of code
  units of the class becomes one hyphen.
\<close>

function replaceRuns :: "(codeunit \<Rightarrow> bool) \<Rightarrow> jsstring \<Rightarrow> jsstring" where
  "replaceRuns cls [] = []"
| "replaceRuns cls (c # cs) =
     (if cls c then dash # replaceRuns cls (dropWhile cls cs)
      else c # replaceRuns cls cs)"
  by pat_completeness auto
termination
  by (relation "measure (\<lambda>(cls, s). length s)") (auto simp: less_Suc_eq_le length_dropWhile_le)

text \<open>
  \<open>String.prototype.toLowerCase\<close> follows the Unicode case tables, which are not part
  of the repository: it is the parameter \<open>toLowerCase\<close>.
\<close>

definition createSlug :: "(jsstring \<Rightarrow> jsstring) \<Rightarrow> jsstring \<Rightarrow> jsstring" where
  "createSlug toLowerCase title =
     replaceRuns (\<lambda>c. c = dash) (replaceRuns isSpace (removeSpecial (toLowerCase title)))"

section \<open>Notions used in the statements\<close>

text \<open>The blocks a callback result contributes to the flattened document.\<close>

fun blocksOf :: "blockOrArray \<Rightarrow> block list" where
  "blocksOf (Single b) = [b]"
| "blocksOf (Array bs) = bs"

text \<open>A block without its \<open>_key\<close>: style, listItem, level and children.\<close>

definition withoutKey :: "block \<Rightarrow> style \<times> listKind option \<times> nat option \<times> span list" where
  "withoutKey b = (style b, listItem b, level b, children b)"




text \<open>
  The texts that \<open>convertParagraph\<close> hands to \<open>processBoldAndEmphasis\<close>, one for each
  block of the paragraph unit: the unit with its prefix dropped (and trimmed, for the
  headings of level 2 to 4 and the quote), or the list lines that match, each with its
  marker and the whitespace after it dropped.
\<close>

definition sourceTexts :: "jsstring \<Rightarrow> jsstring list" where
  "sourceTexts p =
     (if startsWith p (js ''# '') then [drop 2 p]
      else if startsWith p (js ''## '') \<or> matchHeading 0x32 p then [trim (drop 3 p)]
      else if startsWith p (js ''### '') then [trim (drop 4 p)]
      else if matchHeading 0x33 p then [trim (drop 3 p)]
      else if startsWith p (js ''#### '') then [trim (drop 5 p)]
      else if matchHeading 0x34 p then [trim (drop 3 p)]
      else if startsWith p (js ''> '') then [trim (drop 1 p)]
      else if startsWith p (js ''&gt; '') then [trim (drop 4 p)]
      else if testBullet p then map removeBullet (filter testBullet (split [newline] p))
      else if testNumber p then map removeNumber (filter testNumber (split [newline] p))
      else [p])"

definition blockSources :: "jsstring \<Rightarrow> jsstring list" where
  "blockSources S =
     concat (map sourceTexts (filter (\<lambda>p. trim p \<noteq> [])
       (split [newline, newline] (collapseNewlines (replaceBoldHeadings S)))))"

text \<open>The text contains four asterisks in a row.\<close>

fun fourStars :: "jsstring \<Rightarrow> bool" where
  "fourStars (a # b # c # d # cs) =
     ((a = star \<and> b = star \<and> c = star \<and> d = star) \<or> fourStars (b # c # d # cs))"
| "fourStars _ = False"


definition curMarks :: "scanState \<Rightarrow> mark list option" where
  "curMarks st = Some (marksOf (isBold st) (isItalic st))"

text \<open>The loop toggles a flag at index \<open>i\<close>: one of its two marker tests succeeds there.\<close>

definition isToggle :: "jsstring \<Rightarrow> nat \<Rightarrow> bool" where
  "isToggle t i \<longleftrightarrow>
     i < length t \<and>
     ((i < length t - 1 \<and> t ! i = star \<and> t ! (i + 1) = star) \<or>
      (t ! i = star \<and> (i = 0 \<or> t ! (i - 1) \<noteq> star)
         \<and> (i = length t - 1 \<or> t ! (i + 1) \<noteq> star)))"

text \<open>
  The invariant of the scan behind the distinct-marks property: the spans pushed so far
  alternate, the last one differs from what a flush would push now, and when the buffer
  is empty after a push the next step is not another toggle.
\<close>

definition good :: "scanState \<Rightarrow> bool" where
  "good st \<longleftrightarrow>
     distinct_adj (map marks (segments st)) \<and>
     (segments st \<noteq> [] \<longrightarrow> marks (last (segments st)) \<noteq> curMarks st)"

definition inv :: "jsstring \<Rightarrow> nat \<Rightarrow> scanState \<Rightarrow> bool" where
  "inv t i st \<longleftrightarrow>
     good st \<and> (segments st \<noteq> [] \<and> currentText st = [] \<longrightarrow> \<not> isToggle t i)"

text \<open>
  The two marker tests of the loop at index \<open>j\<close>, that neither succeeds at any index from
  \<open>i\<close> on, and that a span carries a mark.
\<close>

definition boldAt :: "jsstring \<Rightarrow> nat \<Rightarrow> bool" where
  "boldAt t j \<longleftrightarrow> j < length t - 1 \<and> t ! j = star \<and> t ! (j + 1) = star"

definition italicAt :: "jsstring \<Rightarrow> nat \<Rightarrow> bool" where
  "italicAt t j \<longleftrightarrow>
     j < length t \<and> t ! j = star \<and> (j = 0 \<or> t ! (j - 1) \<noteq> star)
       \<and> (j = length t - 1 \<or> t ! (j + 1) \<noteq> star)"

definition noBoldFrom :: "jsstring \<Rightarrow> nat \<Rightarrow> bool" where
  "noBoldFrom t i \<longleftrightarrow> list_all (\<lambda>j. \<not> boldAt t j) [i..<length t]"

definition noItalicFrom :: "jsstring \<Rightarrow> nat \<Rightarrow> bool" where
  "noItalicFrom t i \<longleftrightarrow> list_all (\<lambda>j. \<not> italicAt t j) [i..<length t]"

definition hasMark :: "mark \<Rightarrow> span \<Rightarrow> bool" where
  "hasMark k sp \<longleftrightarrow> (case marks sp of Some m \<Rightarrow> k \<in> set m | None \<Rightarrow> False)"

text \<open>
  Two further random sources and the ASCII part of \<open>toLowerCase\<close>, for evaluating the
  converter and \<open>createSlug\<close> on concrete inputs.
\<close>

definition countRandom :: random where
  "countRandom = (\<lambda>k. k)"

definition asciiLower :: "jsstring \<Rightarrow> jsstring" where
  "asciiLower s = map (\<lambda>c. if isUpper c then c + 0x20 else c) s"

section \<open>Strings\<close>

declare scanLoop.simps [simp del]

lemma startsWith_Nil [simp]: "startsWith s []"
  by (simp add: startsWith_def)

lemma startsWith_Cons_Cons [simp]: "startsWith (c # cs) (d # ds) \<longleftrightarrow> c = d \<and> startsWith cs ds"
  by (auto simp: startsWith_def)

lemma startsWith_Nil_Cons [simp]: "\<not> startsWith [] (d # ds)"
  by (simp add: startsWith_def)

lemma startsWith_iff: "startsWith s p \<longleftrightarrow> (\<exists>r. s = p @ r)"
  unfolding startsWith_def by (metis append_eq_conv_conj append_take_drop_id)

lemma replaceFirst_prefix: "startsWith p pat \<Longrightarrow> replaceFirst pat [] p = drop (length pat) p"
  by (cases p) (auto simp: startsWith_def)

lemma startsWith_quote1: "startsWith p (js ''> '') \<Longrightarrow> removeQuote p = drop 1 p"
  by (auto simp: startsWith_iff [of p] removeQuote_def js_def)

lemma startsWith_quote2:
  "\<not> startsWith p (js ''> '') \<Longrightarrow> startsWith p (js ''&gt; '') \<Longrightarrow> removeQuote p = drop 4 p"
  by (auto simp: startsWith_iff [of p] removeQuote_def js_def)

lemma isSpace_not_star: "isSpace c \<Longrightarrow> c \<noteq> star"
  by (auto simp: isSpace_def star_def)

lemma matchBoldHeading_star: "matchBoldHeading (c # cs) = Some x \<Longrightarrow> c = star"
  by (cases "c # cs" rule: matchBoldHeading.cases) (auto split: if_splits)

lemma replaceBoldHeadings_id: "star \<notin> set s \<Longrightarrow> replaceBoldHeadings s = s"
proof (induction s)
  case Nil
  show ?case by simp
next
  case (Cons c cs)
  then have "matchBoldHeading (c # cs) = None"
    using matchBoldHeading_star [of c cs] by (cases "matchBoldHeading (c # cs)") auto
  with Cons show ?case by simp
qed

lemma set_collapseNewlines: "set (collapseNewlines s) \<subseteq> set s"
proof (induction s rule: collapseNewlines.induct)
  case 1
  show ?case by simp
next
  case (2 c cs)
  show ?case
  proof (cases "c = newline \<and> startsWith cs [newline, newline]")
    case True
    then have "set (collapseNewlines (dropWhile (\<lambda>x. x = newline) cs)) \<subseteq> set cs"
      using "2.IH"(1) set_dropWhileD [of _ "\<lambda>x. x = newline" cs] by blast
    with True show ?thesis by auto
  next
    case False
    with "2.IH"(2) show ?thesis by auto
  qed
qed

lemma set_split: "p \<in> set (split sep s) \<Longrightarrow> set p \<subseteq> set s"
proof (induction sep s arbitrary: p rule: split.induct)
  case (1 sep)
  then show ?case by simp
next
  case (2 sep c cs)
  show ?case
  proof (cases "sep \<noteq> [] \<and> startsWith (c # cs) sep")
    case True
    with "2.prems" have "p = [] \<or> p \<in> set (split sep (drop (length sep) (c # cs)))" by auto
    then show ?thesis
    proof
      assume "p = []" then show ?thesis by simp
    next
      assume "p \<in> set (split sep (drop (length sep) (c # cs)))"
      then have "set p \<subseteq> set (drop (length sep) (c # cs))"
        using "2.IH"(1) True by blast
      then show ?thesis using set_drop_subset [of "length sep" "c # cs"] by blast
    qed
  next
    case False
    show ?thesis
    proof (cases "split sep cs")
      case Nil
      with False "2.prems" show ?thesis by auto
    next
      case (Cons q qs)
      with False "2.prems" have "p = c # q \<or> p \<in> set qs" by auto
      then show ?thesis
        using "2.IH"(2) [OF False, of q] "2.IH"(2) [OF False, of p] Cons by auto
    qed
  qed
qed

lemma trim_blank: "\<forall>c\<in>set p. isSpace c \<Longrightarrow> trim p = []"
proof -
  assume "\<forall>c\<in>set p. isSpace c"
  then have e: "dropWhile isSpace p = []" by simp
  show ?thesis unfolding trim_def e by simp
qed



section \<open>The state-passing map and the paragraph callback\<close>

lemma mapState_all:
  assumes "\<And>x r. P (fst (f x r))"
  shows "list_all P (fst (mapState f xs r))"
proof (induction xs arbitrary: r)
  case Nil
  show ?case by simp
next
  case (Cons x xs)
  obtain y r1 where f: "f x r = (y, r1)" by (cases "f x r")
  obtain ys r2 where m: "mapState f xs r1 = (ys, r2)" by (cases "mapState f xs r1")
  have "P y" using assms [of x r] f by simp
  moreover have "list_all P ys" using Cons.IH [of r1] m by simp
  ultimately show ?case by (simp add: f m)
qed

lemma mapState_indep:
  assumes "\<And>x r r'. g (fst (f x r)) = g (fst (f x r'))"
  shows "map g (fst (mapState f xs r)) = map g (fst (mapState f xs r'))"
proof (induction xs arbitrary: r r')
  case Nil
  show ?case by simp
next
  case (Cons x xs)
  obtain y r1 where f: "f x r = (y, r1)" by (cases "f x r")
  obtain ys r2 where m: "mapState f xs r1 = (ys, r2)" by (cases "mapState f xs r1")
  obtain y' r1' where f': "f x r' = (y', r1')" by (cases "f x r'")
  obtain ys' r2' where m': "mapState f xs r1' = (ys', r2')" by (cases "mapState f xs r1'")
  have "g y = g y'" using assms [of x r r'] f f' by simp
  moreover have "map g ys = map g ys'" using Cons.IH [of r1 r1'] m m' by simp
  ultimately show ?case by (simp add: f m f' m')
qed

lemma mapState_map:
  assumes "\<And>x r. g (fst (f x r)) = h x"
  shows "map g (fst (mapState f xs r)) = map h xs"
proof (induction xs arbitrary: r)
  case Nil
  show ?case by simp
next
  case (Cons x xs)
  obtain y r1 where f: "f x r = (y, r1)" by (cases "f x r")
  obtain ys r2 where m: "mapState f xs r1 = (ys, r2)" by (cases "mapState f xs r1")
  have "g y = h x" using assms [of x r] f by simp
  moreover have "map g ys = map h xs" using Cons.IH [of r1] m by simp
  ultimately show ?case by (simp add: f m)
qed

lemma flat_concat: "flat ys = concat (map blocksOf ys)"
  by (induction ys rule: flat.induct) simp_all

lemma fst_plainBlock:
  "blocksOf (fst (plainBlock sty t r)) =
     [\<lparr>style = sty, listItem = None, level = None, children = processBoldAndEmphasis t,
       key = fst (generateKey 12 r)\<rparr>]"
  by (simp add: plainBlock_def split: prod.splits)

lemma fst_bulletItem:
  "fst (bulletItem item r) =
     \<lparr>style = normal, listItem = Some bullet, level = Some 1,
      children = processBoldAndEmphasis (removeBullet item), key = fst (generateKey 12 r)\<rparr>"
  by (simp add: bulletItem_def split: prod.splits)

lemma fst_numberItem:
  "fst (numberItem item r) =
     \<lparr>style = normal, listItem = Some number, level = Some 1,
      children = processBoldAndEmphasis (removeNumber item), key = fst (generateKey 12 r)\<rparr>"
  by (simp add: numberItem_def split: prod.splits)

lemma blocksOf_convertParagraph:
  "blocksOf (fst (convertParagraph p r)) =
     (if startsWith p (js ''# '') then blocksOf (fst (plainBlock h1 (replaceFirst (js ''# '') [] p) r))
      else if startsWith p (js ''## '') then
        blocksOf (fst (plainBlock h2 (trim (replaceFirst (js ''## '') [] p)) r))
      else if matchHeading 0x32 p then blocksOf (fst (plainBlock h2 (trim (removeHeading 0x32 p)) r))
      else if startsWith p (js ''### '') then
        blocksOf (fst (plainBlock h3 (trim (replaceFirst (js ''### '') [] p)) r))
      else if matchHeading 0x33 p then blocksOf (fst (plainBlock h3 (trim (removeHeading 0x33 p)) r))
      else if startsWith p (js ''#### '') then
        blocksOf (fst (plainBlock h4 (trim (replaceFirst (js ''#### '') [] p)) r))
      else if matchHeading 0x34 p then blocksOf (fst (plainBlock h4 (trim (removeHeading 0x34 p)) r))
      else if startsWith p (js ''> '') \<or> startsWith p (js ''&gt; '') then
        blocksOf (fst (plainBlock blockquote (trim (removeQuote p)) r))
      else if testBullet p then fst (mapState bulletItem (filter testBullet (split [newline] p)) r)
      else if testNumber p then fst (mapState numberItem (filter testNumber (split [newline] p)) r)
      else blocksOf (fst (plainBlock normal p r)))"
  by (simp add: convertParagraph_def Let_def case_prod_beta)

lemma fst_markdownToPortableText:
  "fst (markdownToPortableText S r) =
     concat (map blocksOf (fst (mapState convertParagraph
       (filter (\<lambda>p. trim p \<noteq> []) (split [newline, newline] (collapseNewlines (replaceBoldHeadings S)))) r)))"
  by (simp add: markdownToPortableText_def Let_def case_prod_beta flat_concat)

section \<open>The tokenizer\<close>

lemma processBoldAndEmphasis_nonempty: "processBoldAndEmphasis t \<noteq> []"
  by (auto simp: processBoldAndEmphasis_def Let_def)





lemma fourStars_nth:
  "\<not> fourStars t \<Longrightarrow> i + 3 < length t \<Longrightarrow>
   \<not> (t ! i = star \<and> t ! (i + 1) = star \<and> t ! (i + 2) = star \<and> t ! (i + 3) = star)"
proof (induction t arbitrary: i rule: fourStars.induct)
  case (1 a b c d cs)
  show ?case
  proof (cases i)
    case 0
    with "1.prems" show ?thesis by auto
  next
    case (Suc j)
    with "1.prems" "1.IH" [of j] show ?thesis by auto
  qed
qed simp_all

lemma marksOf_toggle:
  "marksOf (\<not> b) i \<noteq> marksOf b i" "marksOf b (\<not> i) \<noteq> marksOf b i"
  "marksOf b i \<noteq> marksOf (\<not> b) i" "marksOf b i \<noteq> marksOf b (\<not> i)"
  by (cases b; cases i; simp add: marksOf_def)+

lemma good_flush_bold:
  "good st \<Longrightarrow> currentText st \<noteq> [] \<or> segments st = [] \<Longrightarrow>
   good ((flush st)\<lparr>isBold := \<not> isBold st\<rparr>)"
  by (auto simp: good_def flush_def curMarks_def distinct_adj_append_iff marksOf_toggle last_map)

lemma good_flush_italic:
  "good st \<Longrightarrow> currentText st \<noteq> [] \<or> segments st = [] \<Longrightarrow>
   good ((flush st)\<lparr>isItalic := \<not> isItalic st\<rparr>)"
  by (auto simp: good_def flush_def curMarks_def distinct_adj_append_iff marksOf_toggle last_map)

lemma good_flush: "good st \<Longrightarrow> distinct_adj (map marks (segments (flush st)))"
  by (auto simp: good_def flush_def curMarks_def distinct_adj_append_iff last_map)

lemma scanLoop_good:
  "\<not> fourStars t \<Longrightarrow> inv t i st \<Longrightarrow> good (scanLoop t i st)"
proof (induction t i st rule: scanLoop.induct)
  case (1 t i st)
  note nf = "1.prems"(1) and iv = "1.prems"(2)
  show ?case
  proof (cases "i < length t")
    case False
    with iv show ?thesis by (subst scanLoop.simps) (simp add: inv_def)
  next
    case inside: True
    let ?bold = "i < length t - 1 \<and> t ! i = star \<and> t ! (i + 1) = star"
    let ?italic = "t ! i = star \<and> (i = 0 \<or> t ! (i - 1) \<noteq> star)
                   \<and> (i = length t - 1 \<or> t ! (i + 1) \<noteq> star)"
    show ?thesis
    proof (cases ?bold)
      case True
      have nt: "\<not> isToggle t (i + 2)"
      proof
        assume "isToggle t (i + 2)"
        with True have "i + 3 < length t \<and> t ! (i + 2) = star \<and> t ! (i + 3) = star"
          by (auto simp: isToggle_def numeral_3_eq_3 numeral_2_eq_2)
        with True fourStars_nth [OF nf, of i] show False by simp
      qed
      have "isToggle t i" using True inside by (simp add: isToggle_def)
      with iv have "currentText st \<noteq> [] \<or> segments st = []" by (auto simp: inv_def)
      with iv have "good ((flush st)\<lparr>isBold := \<not> isBold st\<rparr>)"
        by (simp add: inv_def good_flush_bold)
      with nt have "inv t (i + 2) ((flush st)\<lparr>isBold := \<not> isBold st\<rparr>)"
        by (simp add: inv_def)
      then have "good (scanLoop t (i + 2) ((flush st)\<lparr>isBold := \<not> isBold st\<rparr>))"
        using "1.IH"(1) [OF inside True nf] by simp
      then show ?thesis
        using inside True by (subst scanLoop.simps) simp
    next
      case nb: False
      show ?thesis
      proof (cases ?italic)
        case True
        have nt: "\<not> isToggle t (i + 1)"
          using True inside by (auto simp: isToggle_def)
        have "isToggle t i" using True inside by (simp add: isToggle_def)
        with iv have "currentText st \<noteq> [] \<or> segments st = []" by (auto simp: inv_def)
        with iv have "good ((flush st)\<lparr>isItalic := \<not> isItalic st\<rparr>)"
          by (simp add: inv_def good_flush_italic)
        with nt have "inv t (i + 1) ((flush st)\<lparr>isItalic := \<not> isItalic st\<rparr>)"
          by (simp add: inv_def)
        then have "good (scanLoop t (i + 1) ((flush st)\<lparr>isItalic := \<not> isItalic st\<rparr>))"
          using "1.IH"(2) [OF inside nb True nf] by simp
        then show ?thesis
          using inside nb True by (subst scanLoop.simps) auto
      next
        case ni: False
        have "inv t (i + 1) (st\<lparr>currentText := currentText st @ [t ! i]\<rparr>)"
          using iv by (simp add: inv_def good_def curMarks_def)
        then have "good (scanLoop t (i + 1) (st\<lparr>currentText := currentText st @ [t ! i]\<rparr>))"
          using "1.IH"(3) [OF inside nb ni nf] by simp
        then show ?thesis
          using inside nb ni by (subst scanLoop.simps) auto
      qed
    qed
  qed
qed

lemma processBoldAndEmphasis_distinct_adj:
  assumes "\<not> fourStars t"
  shows "distinct_adj (map marks (processBoldAndEmphasis t))"
proof -
  have "inv t 0 initialState"
    by (simp add: inv_def good_def initialState_def)
  then have "good (scanLoop t 0 initialState)"
    using assms by (rule scanLoop_good [rotated])
  then have "distinct_adj (map marks (segments (flush (scanLoop t 0 initialState))))"
    by (rule good_flush)
  then show ?thesis
    by (simp add: processBoldAndEmphasis_def Let_def)
qed

lemma scanLoop_plain:
  "star \<notin> set (drop i t) \<Longrightarrow> scanLoop t i st = st\<lparr>currentText := currentText st @ drop i t\<rparr>"
proof (induction t i st rule: scanLoop.induct)
  case (1 t i st)
  show ?case
  proof (cases "i < length t")
    case False
    then show ?thesis by (subst scanLoop.simps) simp
  next
    case True
    then have d: "drop i t = t ! i # drop (Suc i) t"
      by (simp add: Cons_nth_drop_Suc)
    with "1.prems" have ns: "t ! i \<noteq> star" and rest: "star \<notin> set (drop (i + 1) t)"
      by auto
    have nbold: "\<not> (i < length t - 1 \<and> t ! i = star \<and> t ! (i + 1) = star)"
      using ns by simp
    have nital: "\<not> (t ! i = star \<and> (i = 0 \<or> t ! (i - 1) \<noteq> star)
                     \<and> (i = length t - 1 \<or> t ! (i + 1) \<noteq> star))"
      using ns by simp
    have "scanLoop t i st = scanLoop t (i + 1) (st\<lparr>currentText := currentText st @ [t ! i]\<rparr>)"
      using True ns by (subst scanLoop.simps) simp
    also have "\<dots> = st\<lparr>currentText := currentText st @ [t ! i]\<rparr>
                \<lparr>currentText := currentText (st\<lparr>currentText := currentText st @ [t ! i]\<rparr>) @ drop (i + 1) t\<rparr>"
      by (rule "1.IH"(3) [OF True nbold nital rest])
    also have "\<dots> = st\<lparr>currentText := currentText st @ drop i t\<rparr>"
      by (simp add: d)
    finally show ?thesis .
  qed
qed

lemma unmatched_bold:
  assumes "star \<notin> set t"
  shows "scanLoop (star # star # t) 0 initialState =
           \<lparr>segments = [], currentText = t, isBold = True, isItalic = False\<rparr>"
proof -
  let ?s = "star # star # t"
  have "scanLoop ?s 0 initialState = scanLoop ?s (0 + 2) ((flush initialState)\<lparr>isBold := \<not> isBold initialState\<rparr>)"
    by (subst scanLoop.simps) simp
  also have "\<dots> = ((flush initialState)\<lparr>isBold := \<not> isBold initialState\<rparr>)
                     \<lparr>currentText := currentText ((flush initialState)\<lparr>isBold := \<not> isBold initialState\<rparr>) @ drop (0 + 2) ?s\<rparr>"
    by (rule scanLoop_plain) (simp add: assms)
  also have "\<dots> = \<lparr>segments = [], currentText = t, isBold = True, isItalic = False\<rparr>"
    by (simp add: flush_def initialState_def)
  finally show ?thesis .
qed

lemma unmatched_italic:
  assumes "star \<notin> set t"
  shows "scanLoop (star # t) 0 initialState =
           \<lparr>segments = [], currentText = t, isBold = False, isItalic = True\<rparr>"
proof -
  let ?s = "star # t"
  have nb: "t \<noteq> [] \<Longrightarrow> t ! 0 \<noteq> star"
    using assms by (cases t) auto
  have "scanLoop ?s 0 initialState = scanLoop ?s (0 + 1) ((flush initialState)\<lparr>isItalic := \<not> isItalic initialState\<rparr>)"
    using nb by (subst scanLoop.simps) auto
  also have "\<dots> = ((flush initialState)\<lparr>isItalic := \<not> isItalic initialState\<rparr>)
                     \<lparr>currentText := currentText ((flush initialState)\<lparr>isItalic := \<not> isItalic initialState\<rparr>) @ drop (0 + 1) ?s\<rparr>"
    by (rule scanLoop_plain) (simp add: assms)
  also have "\<dots> = \<lparr>segments = [], currentText = t, isBold = False, isItalic = True\<rparr>"
    by (simp add: flush_def initialState_def)
  finally show ?thesis .
qed

lemma unmatched_general:
  assumes "star \<notin> set t" "t \<noteq> []"
  shows "processBoldAndEmphasis (star # star # t) = [\<lparr>text = t, marks = Some [strong]\<rparr>]"
    and "processBoldAndEmphasis (star # t) = [\<lparr>text = t, marks = Some [em]\<rparr>]"
proof -
  have b: "flush \<lparr>segments = [], currentText = t, isBold = True, isItalic = False\<rparr>
         = \<lparr>segments = [\<lparr>text = t, marks = Some [strong]\<rparr>], currentText = [],
            isBold = True, isItalic = False\<rparr>"
    using assms(2) by (simp add: flush_def marksOf_def)
  have i: "flush \<lparr>segments = [], currentText = t, isBold = False, isItalic = True\<rparr>
         = \<lparr>segments = [\<lparr>text = t, marks = Some [em]\<rparr>], currentText = [],
            isBold = False, isItalic = True\<rparr>"
    using assms(2) by (simp add: flush_def marksOf_def)
  show "processBoldAndEmphasis (star # star # t) = [\<lparr>text = t, marks = Some [strong]\<rparr>]"
    unfolding processBoldAndEmphasis_def unmatched_bold [OF assms(1)] b by simp
  show "processBoldAndEmphasis (star # t) = [\<lparr>text = t, marks = Some [em]\<rparr>]"
    unfolding processBoldAndEmphasis_def unmatched_italic [OF assms(1)] i by simp
qed

section \<open>The flags of the scan\<close>

lemma scanLoop_step:
  "scanLoop t i st =
     (if i < length t then
        (if boldAt t i then scanLoop t (i + 2) ((flush st)\<lparr>isBold := \<not> isBold st\<rparr>)
         else if italicAt t i then scanLoop t (i + 1) ((flush st)\<lparr>isItalic := \<not> isItalic st\<rparr>)
         else scanLoop t (i + 1) (st\<lparr>currentText := currentText st @ [t ! i]\<rparr>))
      else st)"
  by (subst scanLoop.simps) (auto simp: boldAt_def italicAt_def)

lemma noBoldFrom_iff: "noBoldFrom t i \<longleftrightarrow> (\<forall>j\<ge>i. \<not> boldAt t j)"
  by (auto simp: noBoldFrom_def list_all_iff boldAt_def)

lemma noItalicFrom_iff: "noItalicFrom t i \<longleftrightarrow> (\<forall>j\<ge>i. \<not> italicAt t j)"
  by (auto simp: noItalicFrom_def list_all_iff italicAt_def)

lemma flush_flags [simp]: "isBold (flush st) = isBold st" "isItalic (flush st) = isItalic st"
  by (simp_all add: flush_def)

lemma scanLoop_isBold:
  "noBoldFrom t i \<Longrightarrow> isBold (scanLoop t i st) = isBold st"
proof (induction t i st rule: scanLoop.induct)
  case (1 t i st)
  from "1.prems" have nb: "\<not> boldAt t i" and nxt: "noBoldFrom t (i + 1)"
    by (auto simp: noBoldFrom_iff)
  show ?case
  proof (cases "i < length t")
    case False
    then show ?thesis by (subst scanLoop_step) simp
  next
    case inside: True
    from nb have nb': "\<not> (i < length t - 1 \<and> t ! i = star \<and> t ! (i + 1) = star)"
      by (simp add: boldAt_def)
    show ?thesis
    proof (cases "italicAt t i")
      case True
      then have it: "t ! i = star \<and> (i = 0 \<or> t ! (i - 1) \<noteq> star)
                   \<and> (i = length t - 1 \<or> t ! (i + 1) \<noteq> star)"
        by (simp add: italicAt_def)
      have "isBold (scanLoop t (i + 1) ((flush st)\<lparr>isItalic := \<not> isItalic st\<rparr>))
              = isBold ((flush st)\<lparr>isItalic := \<not> isItalic st\<rparr>)"
        by (rule "1.IH"(2) [OF inside nb' it nxt])
      then show ?thesis
        using inside nb True by (subst scanLoop_step) simp
    next
      case False
      with inside have nit: "\<not> (t ! i = star \<and> (i = 0 \<or> t ! (i - 1) \<noteq> star)
                   \<and> (i = length t - 1 \<or> t ! (i + 1) \<noteq> star))"
        by (simp add: italicAt_def)
      have "isBold (scanLoop t (i + 1) (st\<lparr>currentText := currentText st @ [t ! i]\<rparr>))
              = isBold (st\<lparr>currentText := currentText st @ [t ! i]\<rparr>)"
        by (rule "1.IH"(3) [OF inside nb' nit nxt])
      then show ?thesis
        using inside nb False by (subst scanLoop_step) simp
    qed
  qed
qed

lemma scanLoop_isItalic:
  "noItalicFrom t i \<Longrightarrow> isItalic (scanLoop t i st) = isItalic st"
proof (induction t i st rule: scanLoop.induct)
  case (1 t i st)
  from "1.prems" have ni: "\<not> italicAt t i" and nxt: "noItalicFrom t (i + 1)" "noItalicFrom t (i + 2)"
    by (auto simp: noItalicFrom_iff)
  show ?case
  proof (cases "i < length t")
    case False
    then show ?thesis by (subst scanLoop_step) simp
  next
    case inside: True
    show ?thesis
    proof (cases "boldAt t i")
      case True
      then have b: "i < length t - 1 \<and> t ! i = star \<and> t ! (i + 1) = star"
        by (simp add: boldAt_def)
      have "isItalic (scanLoop t (i + 2) ((flush st)\<lparr>isBold := \<not> isBold st\<rparr>))
              = isItalic ((flush st)\<lparr>isBold := \<not> isBold st\<rparr>)"
        by (rule "1.IH"(1) [OF inside b nxt(2)])
      then show ?thesis
        using inside True by (subst scanLoop_step) simp
    next
      case False
      then have nb': "\<not> (i < length t - 1 \<and> t ! i = star \<and> t ! (i + 1) = star)"
        by (simp add: boldAt_def)
      from ni inside have nit: "\<not> (t ! i = star \<and> (i = 0 \<or> t ! (i - 1) \<noteq> star)
                   \<and> (i = length t - 1 \<or> t ! (i + 1) \<noteq> star))"
        by (simp add: italicAt_def)
      have "isItalic (scanLoop t (i + 1) (st\<lparr>currentText := currentText st @ [t ! i]\<rparr>))
              = isItalic (st\<lparr>currentText := currentText st @ [t ! i]\<rparr>)"
        by (rule "1.IH"(3) [OF inside nb' nit nxt(1)])
      then show ?thesis
        using inside ni False by (subst scanLoop_step) simp
    qed
  qed
qed

lemma flush_new:
  "\<exists>new. segments (flush st) = segments st @ new
     \<and> (isBold st \<longrightarrow> list_all (hasMark strong) new)
     \<and> (isItalic st \<longrightarrow> list_all (hasMark em) new)"
  by (simp add: flush_def hasMark_def marksOf_def)

lemma scanLoop_bold_spans:
  "noBoldFrom t i \<Longrightarrow> isBold st \<Longrightarrow>
   \<exists>new. segments (flush (scanLoop t i st)) = segments st @ new \<and> list_all (hasMark strong) new"
proof (induction t i st rule: scanLoop.induct)
  case (1 t i st)
  from "1.prems" have nb: "\<not> boldAt t i" and nxt: "noBoldFrom t (i + 1)"
    by (auto simp: noBoldFrom_iff)
  note bold = "1.prems"(2)
  show ?case
  proof (cases "i < length t")
    case False
    then have "scanLoop t i st = st" by (subst scanLoop_step) simp
    with flush_new [of st] bold show ?thesis by auto
  next
    case inside: True
    from nb have nb': "\<not> (i < length t - 1 \<and> t ! i = star \<and> t ! (i + 1) = star)"
      by (simp add: boldAt_def)
    show ?thesis
    proof (cases "italicAt t i")
      case True
      then have it: "t ! i = star \<and> (i = 0 \<or> t ! (i - 1) \<noteq> star)
                   \<and> (i = length t - 1 \<or> t ! (i + 1) \<noteq> star)"
        by (simp add: italicAt_def)
      let ?st = "(flush st)\<lparr>isItalic := \<not> isItalic st\<rparr>"
      have b': "isBold ?st" using bold by simp
      from "1.IH"(2) [OF inside nb' it nxt b']
      obtain n2 where n2: "segments (flush (scanLoop t (i + 1) ?st)) = segments ?st @ n2"
        "list_all (hasMark strong) n2" by blast
      from flush_new [of st] bold
      obtain n1 where n1: "segments (flush st) = segments st @ n1" "list_all (hasMark strong) n1"
        by blast
      have "scanLoop t i st = scanLoop t (i + 1) ?st"
        using inside nb True by (subst scanLoop_step) simp
      with n1 n2 have "segments (flush (scanLoop t i st)) = segments st @ (n1 @ n2)
          \<and> list_all (hasMark strong) (n1 @ n2)"
        by simp
      then show ?thesis by blast
    next
      case False
      with inside have nit: "\<not> (t ! i = star \<and> (i = 0 \<or> t ! (i - 1) \<noteq> star)
                   \<and> (i = length t - 1 \<or> t ! (i + 1) \<noteq> star))"
        by (simp add: italicAt_def)
      let ?st = "st\<lparr>currentText := currentText st @ [t ! i]\<rparr>"
      have b': "isBold ?st" using bold by simp
      from "1.IH"(3) [OF inside nb' nit nxt b']
      obtain n2 where n2: "segments (flush (scanLoop t (i + 1) ?st)) = segments ?st @ n2"
        "list_all (hasMark strong) n2" by blast
      have "scanLoop t i st = scanLoop t (i + 1) ?st"
        using inside nb False by (subst scanLoop_step) simp
      with n2 have "segments (flush (scanLoop t i st)) = segments st @ n2
          \<and> list_all (hasMark strong) n2"
        by simp
      then show ?thesis by blast
    qed
  qed
qed

lemma scanLoop_italic_spans:
  "noItalicFrom t i \<Longrightarrow> isItalic st \<Longrightarrow>
   \<exists>new. segments (flush (scanLoop t i st)) = segments st @ new \<and> list_all (hasMark em) new"
proof (induction t i st rule: scanLoop.induct)
  case (1 t i st)
  from "1.prems" have ni: "\<not> italicAt t i" and nxt: "noItalicFrom t (i + 1)" "noItalicFrom t (i + 2)"
    by (auto simp: noItalicFrom_iff)
  note ital = "1.prems"(2)
  show ?case
  proof (cases "i < length t")
    case False
    then have "scanLoop t i st = st" by (subst scanLoop_step) simp
    with flush_new [of st] ital show ?thesis by auto
  next
    case inside: True
    show ?thesis
    proof (cases "boldAt t i")
      case True
      then have b: "i < length t - 1 \<and> t ! i = star \<and> t ! (i + 1) = star"
        by (simp add: boldAt_def)
      let ?st = "(flush st)\<lparr>isBold := \<not> isBold st\<rparr>"
      have i': "isItalic ?st" using ital by simp
      from "1.IH"(1) [OF inside b nxt(2) i']
      obtain n2 where n2: "segments (flush (scanLoop t (i + 2) ?st)) = segments ?st @ n2"
        "list_all (hasMark em) n2" by blast
      from flush_new [of st] ital
      obtain n1 where n1: "segments (flush st) = segments st @ n1" "list_all (hasMark em) n1"
        by blast
      have "scanLoop t i st = scanLoop t (i + 2) ?st"
        using inside True by (subst scanLoop_step) simp
      with n1 n2 have "segments (flush (scanLoop t i st)) = segments st @ (n1 @ n2)
          \<and> list_all (hasMark em) (n1 @ n2)"
        by simp
      then show ?thesis by blast
    next
      case False
      then have nb': "\<not> (i < length t - 1 \<and> t ! i = star \<and> t ! (i + 1) = star)"
        by (simp add: boldAt_def)
      from ni inside have nit: "\<not> (t ! i = star \<and> (i = 0 \<or> t ! (i - 1) \<noteq> star)
                   \<and> (i = length t - 1 \<or> t ! (i + 1) \<noteq> star))"
        by (simp add: italicAt_def)
      let ?st = "st\<lparr>currentText := currentText st @ [t ! i]\<rparr>"
      have i': "isItalic ?st" using ital by simp
      from "1.IH"(3) [OF inside nb' nit nxt(1) i']
      obtain n2 where n2: "segments (flush (scanLoop t (i + 1) ?st)) = segments ?st @ n2"
        "list_all (hasMark em) n2" by blast
      have "scanLoop t i st = scanLoop t (i + 1) ?st"
        using inside ni False by (subst scanLoop_step) simp
      with n2 have "segments (flush (scanLoop t i st)) = segments st @ n2
          \<and> list_all (hasMark em) n2"
        by simp
      then show ?thesis by blast
    qed
  qed
qed

lemma scanLoop_skip:
  "(\<And>j. i \<le> j \<Longrightarrow> j < k \<Longrightarrow> t ! j \<noteq> star) \<Longrightarrow> i \<le> k \<Longrightarrow> k \<le> length t \<Longrightarrow>
   scanLoop t i st = scanLoop t k (st\<lparr>currentText := currentText st @ take (k - i) (drop i t)\<rparr>)"
proof (induction t i st rule: scanLoop.induct)
  case (1 t i st)
  show ?case
  proof (cases "i = k")
    case True
    then show ?thesis by simp
  next
    case False
    with "1.prems" have lt: "i < k" "i < length t" by simp_all
    then have ns: "t ! i \<noteq> star" using "1.prems"(1) [of i] by simp
    have nb': "\<not> (i < length t - 1 \<and> t ! i = star \<and> t ! (i + 1) = star)"
      using ns by simp
    have nit: "\<not> (t ! i = star \<and> (i = 0 \<or> t ! (i - 1) \<noteq> star)
                   \<and> (i = length t - 1 \<or> t ! (i + 1) \<noteq> star))"
      using ns by simp
    let ?st = "st\<lparr>currentText := currentText st @ [t ! i]\<rparr>"
    have "scanLoop t i st = scanLoop t (i + 1) ?st"
      using lt ns by (subst scanLoop_step) (simp add: boldAt_def italicAt_def)
    also have "\<dots> = scanLoop t k (?st\<lparr>currentText := currentText ?st @ take (k - (i + 1)) (drop (i + 1) t)\<rparr>)"
    proof (rule "1.IH"(3) [OF lt(2) nb' nit])
      fix j assume "i + 1 \<le> j" "j < k"
      then show "t ! j \<noteq> star" using "1.prems"(1) [of j] by simp
    next
      show "i + 1 \<le> k" using lt by simp
      show "k \<le> length t" by (rule "1.prems"(3))
    qed
    also have "?st\<lparr>currentText := currentText ?st @ take (k - (i + 1)) (drop (i + 1) t)\<rparr>
             = st\<lparr>currentText := currentText st @ take (k - i) (drop i t)\<rparr>"
    proof -
      have "drop i t = t ! i # drop (i + 1) t"
        using lt(2) by (simp add: Cons_nth_drop_Suc)
      moreover have "k - i = Suc (k - (i + 1))" using lt(1) by simp
      ultimately show ?thesis by simp
    qed
    finally show ?thesis .
  qed
qed

lemma bold_marker_at:
  assumes "boldAt t i" "noBoldFrom t (i + 2)"
  shows "isBold (scanLoop t i st) = (\<not> isBold st)"
    and "\<not> isBold st \<Longrightarrow>
         \<exists>new. segments (flush (scanLoop t i st)) = segments (flush st) @ new
               \<and> list_all (hasMark strong) new"
proof -
  let ?st = "(flush st)\<lparr>isBold := \<not> isBold st\<rparr>"
  from assms(1) have "i < length t" by (auto simp: boldAt_def)
  then have step: "scanLoop t i st = scanLoop t (i + 2) ?st"
    using assms(1) by (subst scanLoop_step) simp
  show "isBold (scanLoop t i st) = (\<not> isBold st)"
    unfolding step using scanLoop_isBold [OF assms(2), of ?st] by simp
  show "\<exists>new. segments (flush (scanLoop t i st)) = segments (flush st) @ new
               \<and> list_all (hasMark strong) new" if "\<not> isBold st"
    unfolding step using scanLoop_bold_spans [OF assms(2), of ?st] that by simp
qed

lemma italic_marker_at:
  assumes "italicAt t i" "noItalicFrom t (i + 1)"
  shows "isItalic (scanLoop t i st) = (\<not> isItalic st)"
    and "\<not> isItalic st \<Longrightarrow>
         \<exists>new. segments (flush (scanLoop t i st)) = segments (flush st) @ new
               \<and> list_all (hasMark em) new"
proof -
  let ?st = "(flush st)\<lparr>isItalic := \<not> isItalic st\<rparr>"
  from assms(1) have "i < length t" "\<not> boldAt t i" by (auto simp: italicAt_def boldAt_def)
  then have step: "scanLoop t i st = scanLoop t (i + 1) ?st"
    using assms(1) by (subst scanLoop_step) simp
  show "isItalic (scanLoop t i st) = (\<not> isItalic st)"
    unfolding step using scanLoop_isItalic [OF assms(2), of ?st] by simp
  show "\<exists>new. segments (flush (scanLoop t i st)) = segments (flush st) @ new
               \<and> list_all (hasMark em) new" if "\<not> isItalic st"
    unfolding step using scanLoop_italic_spans [OF assms(2), of ?st] that by simp
qed

lemma scanLoop_prefix:
  assumes "star \<notin> set p"
  shows "scanLoop (p @ r) 0 initialState
           = scanLoop (p @ r) (length p) (initialState\<lparr>currentText := p\<rparr>)"
proof -
  have "scanLoop (p @ r) 0 initialState
      = scanLoop (p @ r) (length p)
          (initialState\<lparr>currentText := currentText initialState @ take (length p - 0) (drop 0 (p @ r))\<rparr>)"
  proof (rule scanLoop_skip)
    fix j assume "j < length p"
    then have "(p @ r) ! j \<in> set p" by (simp add: nth_append)
    with assms show "(p @ r) ! j \<noteq> star" by auto
  qed simp_all
  then show ?thesis by (simp add: initialState_def)
qed

lemma flush_prefix:
  "segments (flush (initialState\<lparr>currentText := p\<rparr>))
     = (if p = [] then [] else [\<lparr>text = p, marks = Some []\<rparr>])"
  by (simp add: flush_def initialState_def marksOf_def)

lemma unmatched_bold_prefix:
  assumes "star \<notin> set p" "noBoldFrom (p @ star # star # u) (length p + 2)"
  shows "isBold (scanLoop (p @ star # star # u) 0 initialState)"
    and "\<exists>new. segments (flush (scanLoop (p @ star # star # u) 0 initialState))
                 = (if p = [] then [] else [\<lparr>text = p, marks = Some []\<rparr>]) @ new
               \<and> list_all (hasMark strong) new"
proof -
  let ?t = "p @ star # star # u"
  let ?st = "initialState\<lparr>currentText := p\<rparr>"
  have b: "boldAt ?t (length p)" by (simp add: boldAt_def nth_append)
  have nb: "\<not> isBold ?st" by (simp add: initialState_def)
  show "isBold (scanLoop ?t 0 initialState)"
    unfolding scanLoop_prefix [OF assms(1)]
    using bold_marker_at(1) [OF b assms(2), of ?st] nb by simp
  show "\<exists>new. segments (flush (scanLoop ?t 0 initialState))
                 = (if p = [] then [] else [\<lparr>text = p, marks = Some []\<rparr>]) @ new
               \<and> list_all (hasMark strong) new"
    unfolding scanLoop_prefix [OF assms(1)]
    using bold_marker_at(2) [OF b assms(2) nb] by (simp only: flush_prefix)
qed

lemma unmatched_italic_prefix:
  assumes "star \<notin> set p" "u = [] \<or> hd u \<noteq> star" "noItalicFrom (p @ star # u) (length p + 1)"
  shows "isItalic (scanLoop (p @ star # u) 0 initialState)"
    and "\<exists>new. segments (flush (scanLoop (p @ star # u) 0 initialState))
                 = (if p = [] then [] else [\<lparr>text = p, marks = Some []\<rparr>]) @ new
               \<and> list_all (hasMark em) new"
proof -
  let ?t = "p @ star # u"
  let ?st = "initialState\<lparr>currentText := p\<rparr>"
  have prev: "p \<noteq> [] \<Longrightarrow> ?t ! (length p - 1) \<noteq> star"
  proof -
    assume "p \<noteq> []"
    then have "?t ! (length p - 1) = last p" by (simp add: nth_append last_conv_nth)
    moreover have "last p \<in> set p" using \<open>p \<noteq> []\<close> by simp
    ultimately show ?thesis using assms(1) by auto
  qed
  have nxt: "u \<noteq> [] \<Longrightarrow> ?t ! (length p + 1) \<noteq> star"
    using assms(2) by (cases u) (simp_all add: nth_append)
  have c1: "length p < length ?t" "?t ! length p = star" by simp_all
  have c2: "length p = 0 \<or> ?t ! (length p - 1) \<noteq> star"
    using prev by blast
  have c3: "length p = length ?t - 1 \<or> ?t ! (length p + 1) \<noteq> star"
    using nxt by (cases "u = []") simp_all
  have b: "italicAt ?t (length p)"
    unfolding italicAt_def using c1 c2 c3 by blast
  have nb: "\<not> isItalic ?st" by (simp add: initialState_def)
  show "isItalic (scanLoop ?t 0 initialState)"
    unfolding scanLoop_prefix [OF assms(1)]
    using italic_marker_at(1) [OF b assms(3), of ?st] nb by simp
  show "\<exists>new. segments (flush (scanLoop ?t 0 initialState))
                 = (if p = [] then [] else [\<lparr>text = p, marks = Some []\<rparr>]) @ new
               \<and> list_all (hasMark em) new"
    unfolding scanLoop_prefix [OF assms(1)]
    using italic_marker_at(2) [OF b assms(3) nb] by (simp only: flush_prefix)
qed

section \<open>The document\<close>

lemma convertParagraph_children:
  "list_all (\<lambda>b. children b \<noteq> []) (blocksOf (fst (convertParagraph p r)))"
proof -
  have b: "list_all (\<lambda>b. children b \<noteq> []) (fst (mapState bulletItem xs r))" for xs
    by (rule mapState_all) (simp add: fst_bulletItem processBoldAndEmphasis_nonempty)
  have n: "list_all (\<lambda>b. children b \<noteq> []) (fst (mapState numberItem xs r))" for xs
    by (rule mapState_all) (simp add: fst_numberItem processBoldAndEmphasis_nonempty)
  show ?thesis
    by (simp add: blocksOf_convertParagraph fst_plainBlock processBoldAndEmphasis_nonempty b n)
qed

lemma markdownToPortableText_children:
  "list_all (\<lambda>b. children b \<noteq> []) (fst (markdownToPortableText S r))"
proof -
  have "list_all (\<lambda>y. list_all (\<lambda>b. children b \<noteq> []) (blocksOf y))
          (fst (mapState convertParagraph ps r))" for ps
    by (rule mapState_all) (rule convertParagraph_children)
  then show ?thesis
    by (simp add: fst_markdownToPortableText list_all_iff)
qed

lemma convertParagraph_indep:
  "map withoutKey (blocksOf (fst (convertParagraph p r))) =
   map withoutKey (blocksOf (fst (convertParagraph p r')))"
proof -
  have b: "map withoutKey (fst (mapState bulletItem xs r)) = map withoutKey (fst (mapState bulletItem xs r'))" for xs
    by (rule mapState_indep) (simp add: fst_bulletItem withoutKey_def)
  have n: "map withoutKey (fst (mapState numberItem xs r)) = map withoutKey (fst (mapState numberItem xs r'))" for xs
    by (rule mapState_indep) (simp add: fst_numberItem withoutKey_def)
  show ?thesis
    by (simp add: blocksOf_convertParagraph fst_plainBlock withoutKey_def b n)
qed

lemma markdownToPortableText_indep:
  "map withoutKey (fst (markdownToPortableText S r)) = map withoutKey (fst (markdownToPortableText S r'))"
proof -
  have "map (\<lambda>y. map withoutKey (blocksOf y)) (fst (mapState convertParagraph ps r))
      = map (\<lambda>y. map withoutKey (blocksOf y)) (fst (mapState convertParagraph ps r'))" for ps
    by (rule mapState_indep) (rule convertParagraph_indep)
  then show ?thesis
    by (simp add: fst_markdownToPortableText map_concat comp_def)
qed

lemma convertParagraph_sources:
  "map children (blocksOf (fst (convertParagraph p r))) = map processBoldAndEmphasis (sourceTexts p)"
proof -
  have b: "map children (fst (mapState bulletItem xs r)) = map (\<lambda>x. processBoldAndEmphasis (removeBullet x)) xs" for xs
    by (rule mapState_map) (simp add: fst_bulletItem)
  have n: "map children (fst (mapState numberItem xs r)) = map (\<lambda>x. processBoldAndEmphasis (removeNumber x)) xs" for xs
    by (rule mapState_map) (simp add: fst_numberItem)
  have len: "length (js ''# '') = 2" "length (js ''## '') = 3" "length (js ''### '') = 4"
     "length (js ''#### '') = 5"
    by (simp_all add: js_def)
  show ?thesis
    by (simp add: blocksOf_convertParagraph sourceTexts_def fst_plainBlock b n replaceFirst_prefix
          len removeHeading_def startsWith_quote1 startsWith_quote2 comp_def)
qed

lemma markdownToPortableText_sources:
  "map children (fst (markdownToPortableText S r)) = map processBoldAndEmphasis (blockSources S)"
proof -
  have "map (\<lambda>y. map children (blocksOf y)) (fst (mapState convertParagraph ps r))
      = map (\<lambda>p. map processBoldAndEmphasis (sourceTexts p)) ps" for ps
    by (rule mapState_map) (rule convertParagraph_sources)
  then show ?thesis
    by (simp add: fst_markdownToPortableText blockSources_def map_concat comp_def)
qed


lemma markdownToPortableText_blank:
  assumes "\<forall>c\<in>set S. isSpace c"
  shows "fst (markdownToPortableText S r) = []"
proof -
  have "star \<notin> set S" using assms isSpace_not_star by blast
  then have "replaceBoldHeadings S = S" by (rule replaceBoldHeadings_id)
  moreover have "trim p = []"
    if "p \<in> set (split [newline, newline] (collapseNewlines S))" for p
  proof -
    have "set p \<subseteq> set S" using set_split [OF that] set_collapseNewlines [of S] by blast
    with assms show ?thesis by (intro trim_blank) blast
  qed
  then have "filter (\<lambda>p. trim p \<noteq> []) (split [newline, newline] (collapseNewlines S)) = []"
    by (simp add: filter_empty_conv)
  ultimately show ?thesis by (simp add: fst_markdownToPortableText)
qed






section \<open>The pseudo-heading rewrite and the slug\<close>

lemma findClose_content:
  "star \<notin> set c \<Longrightarrow> \<forall>x\<in>set c. \<not> isLineTerminator x \<Longrightarrow>
   findClose (c @ star # star # rest) = Some (c, rest)"
  by (induction c) auto

lemma replaceBoldHeadings_heading:
  assumes "0x31 \<le> d" "d \<le> 0x36" "star \<notin> set c" "\<forall>x\<in>set c. \<not> isLineTerminator x"
  shows "replaceBoldHeadings ([star, star, 0x48, d, 0x3A] @ c @ [star, star] @ rest)
       = [newline, newline, 0x48, d, 0x3A] @ c @ [newline, newline] @ replaceBoldHeadings rest"
  using assms by (simp add: findClose_content)

lemma set_replaceRuns: "set (replaceRuns cls s) \<subseteq> {c \<in> set s. \<not> cls c} \<union> {dash}"
proof (induction cls s rule: replaceRuns.induct)
  case (1 cls)
  show ?case by simp
next
  case (2 cls c cs)
  show ?case
  proof (cases "cls c")
    case True
    have "set (dropWhile cls cs) \<subseteq> set cs" by (auto dest: set_dropWhileD)
    with "2.IH"(1) [OF True] True show ?thesis by auto
  next
    case False
    with "2.IH"(2) [OF False] show ?thesis by auto
  qed
qed

lemma replaceRuns_hd:
  "s \<noteq> [] \<Longrightarrow> \<not> cls (hd s) \<Longrightarrow> replaceRuns cls s \<noteq> [] \<and> hd (replaceRuns cls s) = hd s"
  by (cases s) simp_all

lemma dropWhile_hd: "dropWhile P s \<noteq> [] \<Longrightarrow> \<not> P (hd (dropWhile P s))"
  by (metis hd_dropWhile)

lemma replaceRuns_dash_successively:
  "successively (\<lambda>a b. \<not> (a = dash \<and> b = dash)) (replaceRuns (\<lambda>c. c = dash) s)"
proof (induction "\<lambda>c :: codeunit. c = dash" s rule: replaceRuns.induct)
  case 1
  show ?case by simp
next
  case (2 c cs)
  let ?cls = "\<lambda>c :: codeunit. c = dash"
  show ?case
  proof (cases "c = dash")
    case True
    let ?r = "dropWhile ?cls cs"
    have "replaceRuns ?cls ?r = [] \<or> hd (replaceRuns ?cls ?r) \<noteq> dash"
    proof (cases "?r = []")
      case e: True
      show ?thesis unfolding e by simp
    next
      case False
      then have "\<not> ?cls (hd ?r)" by (rule dropWhile_hd)
      with False replaceRuns_hd [of ?r ?cls] show ?thesis by simp
    qed
    with "2.hyps"(1) [OF True] True show ?thesis
      by (cases "replaceRuns ?cls ?r") (auto simp: successively_Cons)
  next
    case False
    with "2.hyps"(2) [OF False] show ?thesis
      by (cases "replaceRuns ?cls cs") (auto simp: successively_Cons)
  qed
qed

lemma createSlug_chars:
  assumes "\<forall>c\<in>set (toLowerCase title). \<not> isUpper c"
  shows "\<forall>c\<in>set (createSlug toLowerCase title).
           (isLower c \<or> isDigit c \<or> c = 0x5F \<or> c = dash) \<and> \<not> isSpace c \<and> \<not> isUpper c"
proof
  fix c assume c: "c \<in> set (createSlug toLowerCase title)"
  let ?a = "removeSpecial (toLowerCase title)"
  let ?b = "replaceRuns isSpace ?a"
  have nd: "\<not> isSpace dash" "\<not> isUpper dash"
    by (simp_all add: isSpace_def isUpper_def dash_def)
  from c have "c \<in> set ?b \<or> c = dash"
    using set_replaceRuns [of "\<lambda>c. c = dash" ?b] by (auto simp: createSlug_def)
  then have "(c \<in> set ?a \<and> \<not> isSpace c) \<or> c = dash"
    using set_replaceRuns [of isSpace ?a] by auto
  then show "(isLower c \<or> isDigit c \<or> c = 0x5F \<or> c = dash) \<and> \<not> isSpace c \<and> \<not> isUpper c"
  proof
    assume "c \<in> set ?a \<and> \<not> isSpace c"
    then have "c \<in> set (toLowerCase title)" "isWordChar c \<or> c = dash" "\<not> isSpace c"
      by (auto simp: removeSpecial_def)
    with assms show ?thesis by (auto simp: isWordChar_def)
  next
    assume "c = dash"
    with nd show ?thesis by simp
  qed
qed


section \<open>The size of the document\<close>

lemma findClose_length:
  "findClose s = Some (content, rest) \<Longrightarrow> length s = length content + 2 + length rest"
proof (induction s arbitrary: content)
  case Nil
  then show ?case by simp
next
  case (Cons c cs)
  then show ?case
    by (cases cs) (auto split: if_splits option.splits)
qed

lemma matchBoldHeading_length:
  "matchBoldHeading s = Some (d, content, rest) \<Longrightarrow> length s = length content + 7 + length rest"
  by (induction s rule: matchBoldHeading.induct)
     (auto split: if_splits option.splits dest: findClose_length)

lemma length_replaceBoldHeadings: "length (replaceBoldHeadings s) = length s"
proof (induction s rule: replaceBoldHeadings.induct)
  case 1
  show ?case by simp
next
  case (2 c cs)
  show ?case
  proof (cases "matchBoldHeading (c # cs)")
    case None
    with "2.IH"(1) [OF None] show ?thesis by simp
  next
    case (Some x)
    obtain d content rest where x: "x = (d, content, rest)" by (cases x)
    have m: "matchBoldHeading (c # cs) = Some (d, content, rest)"
      using Some x by simp
    have ih: "length (replaceBoldHeadings rest) = length rest"
      by (rule "2.IH"(2) [OF m refl refl])
    have len: "length (c # cs) = length content + 7 + length rest"
      by (rule matchBoldHeading_length [OF m])
    have "replaceBoldHeadings (c # cs) =
            [newline, newline, 0x48, d, 0x3A] @ content @ [newline, newline]
              @ replaceBoldHeadings rest"
      by (subst replaceBoldHeadings.simps) (simp only: m option.case prod.case)
    then have "length (replaceBoldHeadings (c # cs)) = length content + 7 + length rest"
      by (simp only: length_append ih) simp
    with len show ?thesis by (simp only:)
  qed
qed

lemma length_collapseNewlines: "length (collapseNewlines s) \<le> length s"
proof (induction s rule: collapseNewlines.induct)
  case 1
  show ?case by simp
next
  case (2 c cs)
  show ?case
  proof (cases "c = newline \<and> startsWith cs [newline, newline]")
    case True
    then obtain r where cs: "cs = newline # newline # r"
      by (auto simp: startsWith_iff [of cs])
    have "length (dropWhile (\<lambda>x. x = newline) cs) \<le> length r"
      using length_dropWhile_le [of "\<lambda>x. x = newline" r] by (simp add: cs)
    with "2.IH"(1) [OF True] True cs show ?thesis by simp
  next
    case False
    with "2.IH"(2) [OF False] show ?thesis by auto
  qed
qed

lemma sum_length_split: "sum_list (map length (split sep s)) \<le> length s"
proof (induction sep s rule: split.induct)
  case (1 sep)
  show ?case by simp
next
  case (2 sep c cs)
  show ?case
  proof (cases "sep \<noteq> [] \<and> startsWith (c # cs) sep")
    case True
    with "2.IH"(1) [OF True] show ?thesis
      using length_drop [of "length sep" "c # cs"] by simp
  next
    case False
    with "2.IH"(2) [OF False] show ?thesis
      by (cases "split sep cs") auto
  qed
qed

lemma count_nonempty: "length (filter (\<lambda>l. l \<noteq> []) xs) \<le> sum_list (map length xs)"
proof (induction xs)
  case Nil
  show ?case by simp
next
  case (Cons x xs)
  then show ?case by (cases x) auto
qed

lemma count_filter_split:
  assumes "\<And>l. Q l \<Longrightarrow> l \<noteq> []"
  shows "length (filter Q (split sep s)) \<le> length s"
proof -
  have "length (filter Q xs) \<le> length (filter (\<lambda>l. l \<noteq> []) xs)" for xs :: "jsstring list"
    using assms by (induction xs) auto
  then show ?thesis
    using count_nonempty [of "split sep s"] sum_length_split [of sep s]
    by (meson le_trans)
qed

lemma testBullet_nonempty: "testBullet l \<Longrightarrow> l \<noteq> []"
  by (auto simp: testBullet_def)

lemma testNumber_nonempty: "testNumber l \<Longrightarrow> l \<noteq> []"
  by (auto simp: testNumber_def)

lemma length_sourceTexts: "p \<noteq> [] \<Longrightarrow> length (sourceTexts p) \<le> length p"
  using count_filter_split [of testBullet "[newline]" p, OF testBullet_nonempty]
        count_filter_split [of testNumber "[newline]" p, OF testNumber_nonempty]
  by (cases p) (simp_all add: sourceTexts_def)

lemma length_concat_sourceTexts:
  "[] \<notin> set ps \<Longrightarrow> length (concat (map sourceTexts ps)) \<le> sum_list (map length ps)"
proof (induction ps)
  case Nil
  show ?case by simp
next
  case (Cons p ps)
  then show ?case using length_sourceTexts [of p] by auto
qed

lemma sum_length_filter: "sum_list (map length (filter Q xs)) \<le> sum_list (map length xs)"
  by (induction xs) auto

lemma length_blockSources: "length (blockSources S) \<le> length S"
proof -
  let ?c = "collapseNewlines (replaceBoldHeadings S)"
  let ?ps = "filter (\<lambda>p. trim p \<noteq> []) (split [newline, newline] ?c)"
  have "[] \<notin> set ?ps" by (auto simp: trim_def)
  then have "length (blockSources S) \<le> sum_list (map length ?ps)"
    unfolding blockSources_def by (rule length_concat_sourceTexts)
  also have "\<dots> \<le> sum_list (map length (split [newline, newline] ?c))"
    by (rule sum_length_filter)
  also have "\<dots> \<le> length ?c"
    by (rule sum_length_split)
  also have "\<dots> \<le> length S"
    using length_collapseNewlines [of "replaceBoldHeadings S"]
    by (simp add: length_replaceBoldHeadings)
  finally show ?thesis .
qed

lemma length_markdownToPortableText: "length (fst (markdownToPortableText S r)) \<le> length S"
proof -
  have "length (fst (markdownToPortableText S r)) = length (map children (fst (markdownToPortableText S r)))"
    by simp
  also have "\<dots> = length (blockSources S)"
    by (simp only: markdownToPortableText_sources length_map)
  finally show ?thesis using length_blockSources [of S] by simp
qed

section \<open>The claims\<close>

text \<open>
  C1 (totality). Every function of the embedding is a total function with a termination
  proof (the scan by the measure \<open>length text - i\<close>, the replacements by the length of the
  rest of the string), no branch of the converter raises, and every index read of the
  scan is in range. So for every input string and every random source the converter
  returns a sequence of blocks, of at most as many blocks as the input has code units.
  On the empty string and on a string of whitespace only the sequence is empty; on a text
  with an unmatched \<open>**\<close> and an unmatched \<open>*\<close> it is one block.
\<close>

theorem markdownToPortableText_total:
  "(\<exists>blocks r1. markdownToPortableText S r = (blocks, r1) \<and> length blocks \<le> length S)
   \<and> fst (markdownToPortableText [] r) = []
   \<and> ((\<forall>c\<in>set S. isSpace c) \<longrightarrow> fst (markdownToPortableText S r) = [])
   \<and> map children (fst (markdownToPortableText (js ''**a*'') r))
       = [[\<lparr>text = js ''a'', marks = Some [strong]\<rparr>]]"
proof -
  have "\<exists>blocks r1. markdownToPortableText S r = (blocks, r1) \<and> length blocks \<le> length S"
    using length_markdownToPortableText [of S r]
    by (cases "markdownToPortableText S r") simp
  moreover have "fst (markdownToPortableText [] r) = []"
    by (rule markdownToPortableText_blank) simp
  moreover have "(\<forall>c\<in>set S. isSpace c) \<longrightarrow> fst (markdownToPortableText S r) = []"
    by (simp add: markdownToPortableText_blank)
  moreover have "map processBoldAndEmphasis (blockSources (js ''**a*''))
                   = [[\<lparr>text = js ''a'', marks = Some [strong]\<rparr>]]"
    by code_simp
  ultimately show ?thesis
    by (simp only: markdownToPortableText_sources simp_thms)
qed

theorem markdownToPortableText_total_witness:
  "fst (markdownToPortableText (js '' \<newline>\<newline>\<newline>  '') zeroRandom) = []"
proof -
  have "\<forall>c\<in>set (js '' \<newline>\<newline>\<newline>  ''). isSpace c"
    by (simp add: js_def isSpace_def)
  with markdownToPortableText_total [of "js '' \<newline>\<newline>\<newline>  ''" zeroRandom]
  show ?thesis by blast
qed




text \<open>
  C3 (no empty children). Every block of every document has at least one span; when the
  scan has pushed no span, the tokenizer returns the one span with the empty text and no
  \<open>marks\<close> field.
\<close>

theorem no_empty_children:
  "(\<forall>b\<in>set (fst (markdownToPortableText S r)). 1 \<le> length (children b))
   \<and> (segments (flush (scanLoop t 0 initialState)) = []
        \<longrightarrow> processBoldAndEmphasis t = [\<lparr>text = [], marks = None\<rparr>])"
proof -
  have "\<forall>b\<in>set (fst (markdownToPortableText S r)). children b \<noteq> []"
    using markdownToPortableText_children [of S r] by (simp add: list_all_iff)
  then have "\<forall>b\<in>set (fst (markdownToPortableText S r)). 1 \<le> length (children b)"
    by (simp add: Suc_le_eq)
  moreover have "segments (flush (scanLoop t 0 initialState)) = []
        \<longrightarrow> processBoldAndEmphasis t = [\<lparr>text = [], marks = None\<rparr>]"
    by (simp add: processBoldAndEmphasis_def Let_def)
  ultimately show ?thesis by blast
qed

theorem no_empty_children_witness:
  "length (fst (markdownToPortableText (js ''**'') zeroRandom)) = 1
   \<and> 1 \<le> length (children (hd (fst (markdownToPortableText (js ''**'') zeroRandom))))
   \<and> processBoldAndEmphasis (js ''**'') = [\<lparr>text = [], marks = None\<rparr>]"
proof -
  have e: "fst (markdownToPortableText (js ''**'') zeroRandom) =
      [\<lparr>style = normal, listItem = None, level = None,
        children = [\<lparr>text = [], marks = None\<rparr>], key = js ''aaaaaaaaaaaa''\<rparr>]"
    by code_simp
  have s: "segments (flush (scanLoop (js ''**'') 0 initialState)) = []"
    by code_simp
  from no_empty_children [of "js ''**''" zeroRandom "js ''**''"] s
  have "(\<forall>b\<in>set (fst (markdownToPortableText (js ''**'') zeroRandom)). 1 \<le> length (children b))"
    and "processBoldAndEmphasis (js ''**'') = [\<lparr>text = [], marks = None\<rparr>]"
    by blast+
  then show ?thesis by (simp add: e)
qed

text \<open>
  C4 (distinct marks), as the claim states it: no two consecutive spans of a block carry
  the same marks. It fails on \<open>"a****b"\<close>: the two bold toggles follow each other with an
  empty buffer between them, and both spans are unmarked.
\<close>

theorem distinct_marks_counterexample:
  "map marks (processBoldAndEmphasis (js ''a****b'')) = [Some [], Some []]
   \<and> \<not> distinct_adj (map marks (processBoldAndEmphasis (js ''a****b'')))"
  by code_simp

text \<open>
  C4, amended: when the text handed to the tokenizer has no four asterisks in a row, no
  two consecutive spans carry the same marks; so in a document whose block texts have no
  four asterisks in a row, no block has two consecutive spans with the same marks.
\<close>

theorem distinct_marks_amended:
  "(\<not> fourStars t \<longrightarrow> distinct_adj (map marks (processBoldAndEmphasis t)))
   \<and> ((\<forall>s\<in>set (blockSources S). \<not> fourStars s)
        \<longrightarrow> (\<forall>b\<in>set (fst (markdownToPortableText S r)).
               distinct_adj (map marks (children b))))"
proof -
  have "distinct_adj (map marks (children b))"
    if src: "\<forall>s\<in>set (blockSources S). \<not> fourStars s"
      and b: "b \<in> set (fst (markdownToPortableText S r))" for b
  proof -
    from b have "children b \<in> set (map children (fst (markdownToPortableText S r)))"
      by simp
    then obtain s where "s \<in> set (blockSources S)" "children b = processBoldAndEmphasis s"
      unfolding markdownToPortableText_sources by auto
    with src show ?thesis
      by (simp add: processBoldAndEmphasis_distinct_adj)
  qed
  then show ?thesis
    by (auto simp: processBoldAndEmphasis_distinct_adj)
qed

theorem distinct_marks_amended_witness:
  "distinct_adj (map marks (processBoldAndEmphasis (js ''a **b** *c*'')))
   \<and> map marks (processBoldAndEmphasis (js ''a **b** *c*'')) = [Some [], Some [strong], Some [], Some [em]]"
proof -
  have "\<not> fourStars (js ''a **b** *c*'')"
    by code_simp
  with distinct_marks_amended [of "js ''a **b** *c*''" "[]" zeroRandom]
  have "distinct_adj (map marks (processBoldAndEmphasis (js ''a **b** *c*'')))"
    by blast
  moreover have "map marks (processBoldAndEmphasis (js ''a **b** *c*'')) = [Some [], Some [strong], Some [], Some [em]]"
    by code_simp
  ultimately show ?thesis by blast
qed

text \<open>
  C5 (bold and italic toggling). \<open>"a **b** c"\<close> gives the three spans of the claim. Every
  span but the placeholder is written by \<open>flush\<close>, which pushes the buffer, when it is
  not empty, with the mark \<open>strong\<close> exactly when \<open>isBold\<close> holds and the mark \<open>em\<close>
  exactly when \<open>isItalic\<close> holds.
\<close>

theorem bold_italic_toggling:
  "processBoldAndEmphasis (js ''a **b** c'') =
     [\<lparr>text = js ''a '', marks = Some []\<rparr>,
      \<lparr>text = js ''b'', marks = Some [strong]\<rparr>,
      \<lparr>text = js '' c'', marks = Some []\<rparr>]
   \<and> (currentText st \<noteq> [] \<longrightarrow>
        (\<exists>m. segments (flush st) = segments st @ [\<lparr>text = currentText st, marks = Some m\<rparr>]
           \<and> (strong \<in> set m \<longleftrightarrow> isBold st) \<and> (em \<in> set m \<longleftrightarrow> isItalic st)))"
proof -
  have "processBoldAndEmphasis (js ''a **b** c'') =
     [\<lparr>text = js ''a '', marks = Some []\<rparr>,
      \<lparr>text = js ''b'', marks = Some [strong]\<rparr>,
      \<lparr>text = js '' c'', marks = Some []\<rparr>]"
    by code_simp
  moreover have "currentText st \<noteq> [] \<longrightarrow>
        (\<exists>m. segments (flush st) = segments st @ [\<lparr>text = currentText st, marks = Some m\<rparr>]
           \<and> (strong \<in> set m \<longleftrightarrow> isBold st) \<and> (em \<in> set m \<longleftrightarrow> isItalic st))"
    by (simp add: flush_def marksOf_def)
  ultimately show ?thesis by blast
qed

theorem bold_italic_toggling_witness:
  "\<exists>m. segments (flush \<lparr>segments = [], currentText = js ''b'', isBold = True, isItalic = True\<rparr>)
          = [\<lparr>text = js ''b'', marks = Some m\<rparr>]
       \<and> strong \<in> set m \<and> em \<in> set m"
  using bold_italic_toggling
          [of "\<lparr>segments = [], currentText = js ''b'', isBold = True, isItalic = True\<rparr>"]
  by (simp add: js_def)

text \<open>
  C6 (unmatched marker). \<open>"**unterminated"\<close> gives one bold span. In general a flag
  changes only at a marker of its own kind: from any index and state of the scan,
  \<open>isBold\<close> is at the end what it is now when no \<open>**\<close> test succeeds from here on, and
  \<open>isItalic\<close> likewise for the lone \<open>*\<close> test, whatever other markers and text follow. So
  a \<open>**\<close> (or a lone \<open>*\<close>) with no marker of its kind after it flips its flag for the rest
  of the scan, and when it switches the flag on every span pushed from there on carries
  \<open>strong\<close> (or \<open>em\<close>). From the start of the scan: after a text \<open>p\<close> without asterisks,
  an opening marker that is never closed leaves its flag set at the end, and every span
  after the unmarked span for \<open>p\<close> carries its mark. No branch raises.
\<close>

theorem unmatched_marker:
  "processBoldAndEmphasis (js ''**unterminated'')
     = [\<lparr>text = js ''unterminated'', marks = Some [strong]\<rparr>]
   \<and> (star \<notin> set t \<and> t \<noteq> [] \<longrightarrow>
        isBold (scanLoop (star # star # t) 0 initialState)
        \<and> processBoldAndEmphasis (star # star # t) = [\<lparr>text = t, marks = Some [strong]\<rparr>]
        \<and> isItalic (scanLoop (star # t) 0 initialState)
        \<and> processBoldAndEmphasis (star # t) = [\<lparr>text = t, marks = Some [em]\<rparr>])
   \<and> (noBoldFrom s i \<longrightarrow> isBold (scanLoop s i st) = isBold st)
   \<and> (noItalicFrom s i \<longrightarrow> isItalic (scanLoop s i st) = isItalic st)
   \<and> (boldAt s i \<and> noBoldFrom s (i + 2) \<longrightarrow>
        isBold (scanLoop s i st) = (\<not> isBold st)
        \<and> (\<not> isBold st \<longrightarrow>
             (\<exists>new. segments (flush (scanLoop s i st)) = segments (flush st) @ new
                \<and> list_all (hasMark strong) new)))
   \<and> (italicAt s i \<and> noItalicFrom s (i + 1) \<longrightarrow>
        isItalic (scanLoop s i st) = (\<not> isItalic st)
        \<and> (\<not> isItalic st \<longrightarrow>
             (\<exists>new. segments (flush (scanLoop s i st)) = segments (flush st) @ new
                \<and> list_all (hasMark em) new)))
   \<and> (star \<notin> set p \<and> noBoldFrom (p @ star # star # u) (length p + 2) \<longrightarrow>
        isBold (scanLoop (p @ star # star # u) 0 initialState)
        \<and> (\<exists>new. segments (flush (scanLoop (p @ star # star # u) 0 initialState))
                    = (if p = [] then [] else [\<lparr>text = p, marks = Some []\<rparr>]) @ new
              \<and> list_all (hasMark strong) new))
   \<and> (star \<notin> set p \<and> (u = [] \<or> hd u \<noteq> star) \<and> noItalicFrom (p @ star # u) (length p + 1) \<longrightarrow>
        isItalic (scanLoop (p @ star # u) 0 initialState)
        \<and> (\<exists>new. segments (flush (scanLoop (p @ star # u) 0 initialState))
                    = (if p = [] then [] else [\<lparr>text = p, marks = Some []\<rparr>]) @ new
              \<and> list_all (hasMark em) new))"
proof -
  have c0: "processBoldAndEmphasis (js ''**unterminated'')
     = [\<lparr>text = js ''unterminated'', marks = Some [strong]\<rparr>]"
    by code_simp
  have c1: "star \<notin> set t \<and> t \<noteq> [] \<longrightarrow>
        isBold (scanLoop (star # star # t) 0 initialState)
        \<and> processBoldAndEmphasis (star # star # t) = [\<lparr>text = t, marks = Some [strong]\<rparr>]
        \<and> isItalic (scanLoop (star # t) 0 initialState)
        \<and> processBoldAndEmphasis (star # t) = [\<lparr>text = t, marks = Some [em]\<rparr>]"
    by (simp add: unmatched_general unmatched_bold unmatched_italic)
  have c2: "noBoldFrom s i \<longrightarrow> isBold (scanLoop s i st) = isBold st"
    using scanLoop_isBold [of s i st] by blast
  have c3: "noItalicFrom s i \<longrightarrow> isItalic (scanLoop s i st) = isItalic st"
    using scanLoop_isItalic [of s i st] by blast
  have c4: "boldAt s i \<and> noBoldFrom s (i + 2) \<longrightarrow>
        isBold (scanLoop s i st) = (\<not> isBold st)
        \<and> (\<not> isBold st \<longrightarrow>
             (\<exists>new. segments (flush (scanLoop s i st)) = segments (flush st) @ new
                \<and> list_all (hasMark strong) new))"
    using bold_marker_at [of s i st] by blast
  have c5: "italicAt s i \<and> noItalicFrom s (i + 1) \<longrightarrow>
        isItalic (scanLoop s i st) = (\<not> isItalic st)
        \<and> (\<not> isItalic st \<longrightarrow>
             (\<exists>new. segments (flush (scanLoop s i st)) = segments (flush st) @ new
                \<and> list_all (hasMark em) new))"
    using italic_marker_at [of s i st] by blast
  have c6: "star \<notin> set p \<and> noBoldFrom (p @ star # star # u) (length p + 2) \<longrightarrow>
        isBold (scanLoop (p @ star # star # u) 0 initialState)
        \<and> (\<exists>new. segments (flush (scanLoop (p @ star # star # u) 0 initialState))
                    = (if p = [] then [] else [\<lparr>text = p, marks = Some []\<rparr>]) @ new
              \<and> list_all (hasMark strong) new)"
    using unmatched_bold_prefix [of p u] by blast
  have c7: "star \<notin> set p \<and> (u = [] \<or> hd u \<noteq> star) \<and> noItalicFrom (p @ star # u) (length p + 1) \<longrightarrow>
        isItalic (scanLoop (p @ star # u) 0 initialState)
        \<and> (\<exists>new. segments (flush (scanLoop (p @ star # u) 0 initialState))
                    = (if p = [] then [] else [\<lparr>text = p, marks = Some []\<rparr>]) @ new
              \<and> list_all (hasMark em) new)"
    using unmatched_italic_prefix [of p u] by blast
  from c0 c1 c2 c3 c4 c5 c6 c7 show ?thesis by (intro conjI)
qed

theorem unmatched_marker_witness:
  "isBold (scanLoop (js ''**a *b'') 0 initialState)
   \<and> isItalic (scanLoop (js ''**a *b'') 4 \<lparr>segments = [], currentText = js ''a '', isBold = True, isItalic = False\<rparr>)
   \<and> isBold (scanLoop (js ''**a *b'') 4 \<lparr>segments = [], currentText = js ''a '', isBold = True, isItalic = False\<rparr>)
   \<and> isItalic (scanLoop (js ''a *b'') 0 initialState)
   \<and> processBoldAndEmphasis (js ''*never closed'') = [\<lparr>text = js ''never closed'', marks = Some [em]\<rparr>]
   \<and> processBoldAndEmphasis (js ''**a *b'') =
       [\<lparr>text = js ''a '', marks = Some [strong]\<rparr>, \<lparr>text = js ''b'', marks = Some [strong, em]\<rparr>]"
proof -
  let ?st = "\<lparr>segments = [], currentText = js ''a '', isBold = True, isItalic = False\<rparr>"
  have t1: "js ''**a *b'' = [] @ star # star # js ''a *b''"
    and t2: "js ''a *b'' = js ''a '' @ star # js ''b''"
    and t3: "js ''*never closed'' = star # js ''never closed''"
    by (simp_all add: js_def star_def)
  have h1: "star \<notin> set ([] :: jsstring) \<and> noBoldFrom ([] @ star # star # js ''a *b'') (length ([] :: jsstring) + 2)"
    by code_simp
  have h2: "star \<notin> set (js ''a '') \<and> (js ''b'' = [] \<or> hd (js ''b'') \<noteq> star)
            \<and> noItalicFrom (js ''a '' @ star # js ''b'') (length (js ''a '') + 1)"
    by code_simp
  have h3: "italicAt (js ''**a *b'') 4 \<and> noItalicFrom (js ''**a *b'') (4 + 1)"
    by code_simp
  have h4: "noBoldFrom (js ''**a *b'') 4"
    by code_simp
  have h5: "star \<notin> set (js ''never closed'') \<and> js ''never closed'' \<noteq> []"
    by code_simp
  note inst = unmatched_marker [of "js ''never closed''" "js ''**a *b''" 4 ?st]
  have a: "isBold (scanLoop (js ''**a *b'') 0 initialState)"
    using inst [of "[]" "js ''a *b''"] h1 unfolding t1 [symmetric] by blast
  have b: "isItalic (scanLoop (js ''**a *b'') 4 ?st)"
    using inst [of "[]" "[]"] h3 by simp
  have c: "isBold (scanLoop (js ''**a *b'') 4 ?st)"
    using inst [of "[]" "[]"] h4 by simp
  have d: "isItalic (scanLoop (js ''a *b'') 0 initialState)"
    using inst [of "js ''a ''" "js ''b''"] h2 unfolding t2 [symmetric] by blast
  have e: "processBoldAndEmphasis (js ''*never closed'') = [\<lparr>text = js ''never closed'', marks = Some [em]\<rparr>]"
    using inst [of "[]" "[]"] h5 unfolding t3 by blast
  have f: "processBoldAndEmphasis (js ''**a *b'') =
       [\<lparr>text = js ''a '', marks = Some [strong]\<rparr>, \<lparr>text = js ''b'', marks = Some [strong, em]\<rparr>]"
    by code_simp
  from a b c d e f show ?thesis by (intro conjI)
qed



text \<open>
  C8 (pseudo-heading rewrite). \<open>"**H2:Benefits**"\<close> is rewritten to \<open>"\n\nH2:Benefits\n\n"\<close>
  and converts to one block of style \<open>h2\<close> whose only span has the text \<open>Benefits\<close>. In
  general two asterisks, \<open>H\<close>, a digit from 1 to 6, a colon, a content without asterisks
  and line terminators, and two asterisks are rewritten to \<open>H\<close>, the digit, the colon and
  the content between two pairs of newlines, and the rewriting goes on after the match.
\<close>

theorem pseudo_heading_rewrite:
  "replaceBoldHeadings (js ''**H2:Benefits**'') = js ''\<newline>\<newline>H2:Benefits\<newline>\<newline>''
   \<and> map withoutKey (fst (markdownToPortableText (js ''**H2:Benefits**'') r)) =
       [(h2, None, None, [\<lparr>text = js ''Benefits'', marks = Some []\<rparr>])]
   \<and> (0x31 \<le> d \<and> d \<le> 0x36 \<and> star \<notin> set c \<and> (\<forall>x\<in>set c. \<not> isLineTerminator x) \<longrightarrow>
        replaceBoldHeadings ([star, star, 0x48, d, 0x3A] @ c @ [star, star] @ rest)
          = [newline, newline, 0x48, d, 0x3A] @ c @ [newline, newline] @ replaceBoldHeadings rest)"
proof -
  have a: "replaceBoldHeadings (js ''**H2:Benefits**'') = js ''\<newline>\<newline>H2:Benefits\<newline>\<newline>''"
    by code_simp
  have "map withoutKey (fst (markdownToPortableText (js ''**H2:Benefits**'') zeroRandom)) =
       [(h2, None, None, [\<lparr>text = js ''Benefits'', marks = Some []\<rparr>])]"
    by code_simp
  then have b: "map withoutKey (fst (markdownToPortableText (js ''**H2:Benefits**'') r)) =
       [(h2, None, None, [\<lparr>text = js ''Benefits'', marks = Some []\<rparr>])]"
    by (simp only: markdownToPortableText_indep [of _ r zeroRandom])
  show ?thesis
    using a b replaceBoldHeadings_heading [of d c rest] by blast
qed

theorem pseudo_heading_rewrite_witness:
  "replaceBoldHeadings (js ''**H3:Costs** and more'') = js ''\<newline>\<newline>H3:Costs\<newline>\<newline> and more''"
proof -
  have s: "js ''**H3:Costs** and more'' = [star, star, 0x48, 0x33, 0x3A] @ js ''Costs'' @ [star, star] @ js '' and more''"
    by (simp add: js_def star_def)
  have h: "(0x31 :: codeunit) \<le> 0x33 \<and> (0x33 :: codeunit) \<le> 0x36 \<and> star \<notin> set (js ''Costs'')
           \<and> (\<forall>x\<in>set (js ''Costs''). \<not> isLineTerminator x)"
    by (simp add: js_def star_def isLineTerminator_def)
  have r: "replaceBoldHeadings (js '' and more'') = js '' and more''"
    by code_simp
  have "replaceBoldHeadings (js ''**H3:Costs** and more'')
          = [newline, newline, 0x48, 0x33, 0x3A] @ js ''Costs'' @ [newline, newline] @ js '' and more''"
    using pseudo_heading_rewrite [of zeroRandom "0x33" "js ''Costs''" "js '' and more''"] h
    unfolding s r by blast
  also have "\<dots> = js ''\<newline>\<newline>H3:Costs\<newline>\<newline> and more''"
    by (simp add: js_def newline_def)
  finally show ?thesis .
qed

text \<open>
  C9 (determinism but for the keys). Two runs of the converter on the same input, with
  any two random sources, return the same number of blocks, and the blocks agree in
  order on style, listItem, level and children (so on every span's text and marks); only
  the keys depend on the random source.
\<close>

theorem deterministic_modulo_keys:
  "length (fst (markdownToPortableText S r1)) = length (fst (markdownToPortableText S r2))
   \<and> map withoutKey (fst (markdownToPortableText S r1))
       = map withoutKey (fst (markdownToPortableText S r2))"
  using markdownToPortableText_indep [of S r1 r2] map_eq_imp_length_eq by blast

theorem deterministic_modulo_keys_witness:
  "map withoutKey (fst (markdownToPortableText (js ''# Hi'') zeroRandom))
     = map withoutKey (fst (markdownToPortableText (js ''# Hi'') countRandom))
   \<and> map key (fst (markdownToPortableText (js ''# Hi'') zeroRandom)) = [js ''aaaaaaaaaaaa'']
   \<and> map key (fst (markdownToPortableText (js ''# Hi'') countRandom)) = [js ''abcdefghijkl'']"
proof -
  have "map key (fst (markdownToPortableText (js ''# Hi'') zeroRandom)) = [js ''aaaaaaaaaaaa'']"
    by code_simp
  moreover have "map key (fst (markdownToPortableText (js ''# Hi'') countRandom)) = [js ''abcdefghijkl'']"
    by code_simp
  ultimately show ?thesis
    using deterministic_modulo_keys [of "js ''# Hi''" zeroRandom countRandom] by blast
qed

text \<open>
  C10 (character set of a slug). \<open>toLowerCase\<close> is a parameter; what is used of it is
  that its result on the title has no code unit from \<open>A\<close> to \<open>Z\<close>. Then every code unit
  of the slug is a lowercase ASCII letter, a digit, an underscore or a hyphen, none is
  whitespace or an uppercase letter, and no two hyphens follow each other.
\<close>

theorem createSlug_charset:
  assumes "\<forall>c\<in>set (toLowerCase title). \<not> isUpper c"
  shows "(\<forall>c\<in>set (createSlug toLowerCase title).
            (isLower c \<or> isDigit c \<or> c = 0x5F \<or> c = dash) \<and> \<not> isSpace c \<and> \<not> isUpper c)
         \<and> (\<forall>i. Suc i < length (createSlug toLowerCase title) \<longrightarrow>
               \<not> (createSlug toLowerCase title ! i = dash
                  \<and> createSlug toLowerCase title ! Suc i = dash))"
proof -
  have "successively (\<lambda>a b. \<not> (a = dash \<and> b = dash)) (createSlug toLowerCase title)"
    unfolding createSlug_def by (rule replaceRuns_dash_successively)
  then have "\<forall>i. Suc i < length (createSlug toLowerCase title) \<longrightarrow>
               \<not> (createSlug toLowerCase title ! i = dash
                  \<and> createSlug toLowerCase title ! Suc i = dash)"
    by (simp only: successively_conv_nth)
  with createSlug_chars [of toLowerCase title] assms show ?thesis by blast
qed

theorem createSlug_charset_witness:
  "createSlug asciiLower (js ''Hello,  World -- a_b!?'') = js ''hello-world-a_b''
   \<and> list_all (\<lambda>c. isLower c \<or> isDigit c \<or> c = 0x5F \<or> c = dash)
        (createSlug asciiLower (js ''Hello,  World -- a_b!?''))"
proof -
  have "\<forall>c\<in>set (asciiLower (js ''Hello,  World -- a_b!?'')). \<not> isUpper c"
    by code_simp
  with createSlug_charset [of asciiLower "js ''Hello,  World -- a_b!?''"]
  have "list_all (\<lambda>c. isLower c \<or> isDigit c \<or> c = 0x5F \<or> c = dash)
        (createSlug asciiLower (js ''Hello,  World -- a_b!?''))"
    by (simp add: list_all_iff)
  moreover have "createSlug asciiLower (js ''Hello,  World -- a_b!?'') = js ''hello-world-a_b''"
    by code_simp
  ultimately show ?thesis by blast
qed

end
